theory Spec2Isabelle
  imports Main "HOL-Library.Sublist" "HOL-Library.Char_ord" "HOL-Library.List_Lexorder"
begin

section \<open>Paths, as \<^verbatim>\<open>pathlib\<close> represents them on a POSIX system\<close>

text \<open>
  \<^verbatim>\<open>src/uqbar/io/__init__.py\<close> works on \<^verbatim>\<open>pathlib.Path\<close> values. A parsed POSIX path is a
  root (\<^verbatim>\<open>''\<close> for a relative path, \<^verbatim>\<open>'/'\<close> or \<^verbatim>\<open>'//'\<close> for an absolute one) and the list
  of its segments; the drive is always empty. Parsing drops empty segments and \<^verbatim>\<open>'.'\<close> and
  keeps \<^verbatim>\<open>'..'\<close>. Two paths are equal when their parts are; on paths that the parser
  produces (no segment holds a slash) that is equality of the record.
\<close>

record path =
  root :: string
  segs :: "string list"

definition parts :: "path \<Rightarrow> string list" where
  "parts p = (if root p = [] then segs p else root p # segs p)"

definition is_absolute :: "path \<Rightarrow> bool" where
  "is_absolute p = (root p \<noteq> [])"

text \<open>\<^verbatim>\<open>str.split('/')\<close>.\<close>

fun split_sep :: "string \<Rightarrow> string list" where
  "split_sep [] = [[]]"
| "split_sep (c # cs) =
     (if c = CHR ''/'' then [] # split_sep cs
      else (c # hd (split_sep cs)) # tl (split_sep cs))"

text \<open>\<^verbatim>\<open>_PosixFlavour.splitroot\<close>: exactly two leading slashes are a root of their own.\<close>

definition splitroot :: "string \<Rightarrow> string \<times> string" where
  "splitroot part =
     (if part \<noteq> [] \<and> hd part = CHR ''/'' then
        (let stripped_part = dropWhile (\<lambda>c. c = CHR ''/'') part in
         if length part - length stripped_part = 2 then (''//'', stripped_part)
         else (''/'', stripped_part))
      else ([], part))"

text \<open>\<^verbatim>\<open>pathlib.Path(s)\<close> for one string.\<close>

definition Path :: "string \<Rightarrow> path" where
  "Path s =
     (case splitroot s of (r, rel) \<Rightarrow>
        \<lparr>root = r, segs = filter (\<lambda>x. x \<noteq> [] \<and> x \<noteq> ''.'') (split_sep rel)\<rparr>)"

text \<open>\<^verbatim>\<open>'/'.join(xs)\<close>.\<close>

fun join_sep :: "string list \<Rightarrow> string" where
  "join_sep [] = []"
| "join_sep [x] = x"
| "join_sep (x # y # ys) = x @ CHR ''/'' # join_sep (y # ys)"

text \<open>\<^verbatim>\<open>str(p)\<close>: the root and the joined segments, or \<^verbatim>\<open>'.'\<close> when that is empty.\<close>

definition str_of :: "path \<Rightarrow> string" where
  "str_of p = (let s = root p @ join_sep (segs p) in if s = [] then ''.'' else s)"

text \<open>\<^verbatim>\<open>p / q\<close>: an anchored right operand replaces the left one.\<close>

definition joinpath :: "path \<Rightarrow> path \<Rightarrow> path" where
  "joinpath p q = (if root q \<noteq> [] then q else \<lparr>root = root p, segs = segs p @ segs q\<rparr>)"

text \<open>\<^verbatim>\<open>pathlib.Path(*args)\<close>: the arguments parsed and joined from left to right.\<close>

definition Path_args :: "string list \<Rightarrow> path" where
  "Path_args args = foldl joinpath \<lparr>root = [], segs = []\<rparr> (map Path args)"

text \<open>
  \<^verbatim>\<open>p.absolute()\<close>: an absolute path is returned as it is, any other is appended to the
  working directory \<open>cwd\<close> (the parsed \<^verbatim>\<open>os.getcwd()\<close>). Nothing is normalised: \<^verbatim>\<open>'..'\<close>
  segments stay.
\<close>

definition absolute :: "path \<Rightarrow> path \<Rightarrow> path" where
  "absolute cwd p = (if is_absolute p then p else joinpath cwd p)"

text \<open>
  \<^verbatim>\<open>p.parent\<close>: the path without its last segment; the root and \<^verbatim>\<open>'.'\<close> are their own
  parents.
\<close>

definition parent :: "path \<Rightarrow> path" where
  "parent p = p\<lparr>segs := butlast (segs p)\<rparr>"

text \<open>
  \<^verbatim>\<open>p.parents\<close>: the proper ancestors, the nearest first; item \<open>idx\<close> keeps all but the last
  \<open>idx + 1\<close> segments.
\<close>

definition parents :: "path \<Rightarrow> path list" where
  "parents p = map (\<lambda>k. p\<lparr>segs := take k (segs p)\<rparr>) (rev [0..<length (segs p)])"

section \<open>The common-prefix finder\<close>

text \<open>
  \<^verbatim>\<open>collections.Counter\<close> as an association list in insertion order; \<^verbatim>\<open>update\<close> adds one
  for each element of the iterable.
\<close>

type_synonym counter = "(path \<times> nat) list"

fun counter_incr :: "path \<Rightarrow> counter \<Rightarrow> counter" where
  "counter_incr k [] = [(k, 1)]"
| "counter_incr k ((k', c) # kvs) =
     (if k = k' then (k', c + 1) # kvs else (k', c) # counter_incr k kvs)"

definition counter_update :: "path list \<Rightarrow> counter \<Rightarrow> counter" where
  "counter_update ks cnt = foldl (\<lambda>c k. counter_incr k c) cnt ks"

definition count_paths :: "path \<Rightarrow> path list \<Rightarrow> counter" where
  "count_paths cwd paths =
     foldl (\<lambda>cnt p. let p' = absolute cwd p in
                     counter_update (parents p') (counter_update [p'] cnt)) [] paths"

text \<open>
  \<^verbatim>\<open>find_common_prefix\<close>: the counted paths that reach \<^verbatim>\<open>len(paths)\<close>, sorted (stably) by
  their number of parts; the last of them, or \<^verbatim>\<open>None\<close> when there is none.
\<close>

definition find_common_prefix :: "path \<Rightarrow> path list \<Rightarrow> path option" where
  "find_common_prefix cwd paths =
     (let counter = count_paths cwd paths;
          sorted_paths = sort_key (\<lambda>x. length (parts x))
                           (map fst (filter (\<lambda>(p, count). count \<ge> length paths) counter))
      in if sorted_paths \<noteq> [] then Some (last sorted_paths) else None)"


text \<open>
  The specification's vocabulary. A path \<open>q\<close> is an ancestor-or-self of \<open>p\<close> when its segment
  sequence is a prefix of \<open>p\<close>'s (under the same root); a common ancestor of a collection is
  one of every member, and the deepest one has the most parts.
\<close>

definition is_ancestor_or_self :: "path \<Rightarrow> path \<Rightarrow> bool" where
  "is_ancestor_or_self q p = (root q = root p \<and> prefix (segs q) (segs p))"

definition common_ancestor :: "path \<Rightarrow> path list \<Rightarrow> bool" where
  "common_ancestor q ps = (\<forall>p \<in> set ps. is_ancestor_or_self q p)"

definition deepest_common_ancestor :: "path \<Rightarrow> path list \<Rightarrow> bool" where
  "deepest_common_ancestor q ps =
     (common_ancestor q ps \<and>
      (\<forall>r. common_ancestor r ps \<longrightarrow> length (parts r) \<le> length (parts q)))"

text \<open>The count a \<^verbatim>\<open>Counter\<close> holds for a key: zero for a key it does not have.\<close>

definition count_of :: "counter \<Rightarrow> path \<Rightarrow> nat" where
  "count_of cnt q = (case map_of cnt q of None \<Rightarrow> 0 | Some c \<Rightarrow> c)"


section \<open>The filesystem and the process around the calls\<close>

text \<open>
  The exceptions the functions can raise: \<^verbatim>\<open>ValueError\<close> with its message, and the
  \<^verbatim>\<open>OSError\<close> subclasses that path lookup, \<^verbatim>\<open>open\<close> and \<^verbatim>\<open>mkdir\<close> produce. A function that
  can raise returns \<open>error + 'a\<close>, \<open>Inl\<close> being the exception.
\<close>

datatype error =
  ValueError string
| FileNotFoundError
| NotADirectoryError
| IsADirectoryError
| FileExistsError

text \<open>
  A filesystem without symbolic links and without permissions: every location (the list
  of names from the root directory) holds a regular file with its stored text, a
  directory, or nothing. The world also records the working directory, every
  \<^verbatim>\<open>file_pointer.write\<close> call (the physical writes) and the lines printed.
\<close>

datatype entry = File string | Dir

type_synonym loc = "string list"

record world =
  getcwd :: path
  fs :: "loc \<Rightarrow> entry option"
  written :: "(path \<times> string) list"
  stdout :: "string list"

text \<open>
  Path lookup as the kernel does it: every step needs the directory reached so far to
  exist and to be a directory; \<^verbatim>\<open>'..'\<close> steps to the parent, and the root is its own
  parent. The location reached by the last step is returned whether or not it exists.
\<close>

fun namei :: "(loc \<Rightarrow> entry option) \<Rightarrow> loc \<Rightarrow> string list \<Rightarrow> error + loc" where
  "namei f cur [] = Inr cur"
| "namei f cur (s # ss) =
     (case f cur of
        None \<Rightarrow> Inl FileNotFoundError
      | Some (File c) \<Rightarrow> Inl NotADirectoryError
      | Some Dir \<Rightarrow> namei f (if s = ''..'' then butlast cur else cur @ [s]) ss)"

definition resolve :: "world \<Rightarrow> path \<Rightarrow> error + loc" where
  "resolve w p = namei (fs w) [] (segs (absolute (getcwd w) p))"

text \<open>\<^verbatim>\<open>os.stat\<close>.\<close>

definition os_stat :: "world \<Rightarrow> path \<Rightarrow> error + entry" where
  "os_stat w p =
     (case resolve w p of
        Inl e \<Rightarrow> Inl e
      | Inr l \<Rightarrow> (case fs w l of None \<Rightarrow> Inl FileNotFoundError | Some e \<Rightarrow> Inr e))"

text \<open>
  \<^verbatim>\<open>Path.exists\<close>, \<^verbatim>\<open>Path.is_file\<close>, \<^verbatim>\<open>Path.is_dir\<close>: a lookup that fails with \<^verbatim>\<open>ENOENT\<close> or
  \<^verbatim>\<open>ENOTDIR\<close> answers \<^verbatim>\<open>False\<close>.
\<close>

definition exists :: "world \<Rightarrow> path \<Rightarrow> bool" where
  "exists w p = (case os_stat w p of Inl e \<Rightarrow> False | Inr e \<Rightarrow> True)"

definition is_file :: "world \<Rightarrow> path \<Rightarrow> bool" where
  "is_file w p = (case os_stat w p of Inr (File c) \<Rightarrow> True | _ \<Rightarrow> False)"

definition is_dir :: "world \<Rightarrow> path \<Rightarrow> bool" where
  "is_dir w p = (case os_stat w p of Inr Dir \<Rightarrow> True | _ \<Rightarrow> False)"

text \<open>
  Reading in text mode translates \<^verbatim>\<open>'\r\n'\<close> and \<^verbatim>\<open>'\r'\<close> to \<^verbatim>\<open>'\n'\<close> (universal newlines);
  writing in text mode on POSIX stores the text as it is.
\<close>

fun universal_newlines :: "string \<Rightarrow> string" where
  "universal_newlines [] = []"
| "universal_newlines (c # cs) =
     (if c = CHR 0x0D then
        (case cs of
           [] \<Rightarrow> [CHR 0x0A]
         | d # ds \<Rightarrow> if d = CHR 0x0A then CHR 0x0A # universal_newlines ds
                     else CHR 0x0A # universal_newlines cs)
      else c # universal_newlines cs)"

text \<open>\<^verbatim>\<open>with path.open('r') as file_pointer: file_pointer.read()\<close>.\<close>

definition open_read :: "world \<Rightarrow> path \<Rightarrow> error + string" where
  "open_read w p =
     (case os_stat w p of
        Inl e \<Rightarrow> Inl e
      | Inr Dir \<Rightarrow> Inl IsADirectoryError
      | Inr (File c) \<Rightarrow> Inr (universal_newlines c))"

text \<open>
  \<^verbatim>\<open>with path.open('w') as file_pointer: file_pointer.write(contents)\<close>: the file is
  created or truncated where the lookup ends, unless a directory is there.
\<close>

definition open_write :: "string \<Rightarrow> path \<Rightarrow> world \<Rightarrow> error + world" where
  "open_write contents p w =
     (case resolve w p of
        Inl e \<Rightarrow> Inl e
      | Inr l \<Rightarrow>
          (case fs w l of
             Some Dir \<Rightarrow> Inl IsADirectoryError
           | _ \<Rightarrow> Inr (w\<lparr>fs := (fs w)(l \<mapsto> File contents),
                          written := written w @ [(p, contents)]\<rparr>)))"

text \<open>\<^verbatim>\<open>os.mkdir\<close>: the lookup must succeed and end where nothing exists yet.\<close>

definition os_mkdir :: "world \<Rightarrow> path \<Rightarrow> error + world" where
  "os_mkdir w p =
     (case resolve w p of
        Inl e \<Rightarrow> Inl e
      | Inr l \<Rightarrow>
          (case fs w l of
             Some e \<Rightarrow> Inl FileExistsError
           | None \<Rightarrow> Inr (w\<lparr>fs := (fs w)(l \<mapsto> Dir)\<rparr>)))"

text \<open>
  \<^verbatim>\<open>Path.mkdir(parents, exist_ok)\<close>: on \<^verbatim>\<open>FileNotFoundError\<close> with \<^verbatim>\<open>parents\<close> set the parent
  is made first (itself with \<^verbatim>\<open>parents=True, exist_ok=True\<close>) and the directory is made
  again without \<^verbatim>\<open>parents\<close>; any other \<^verbatim>\<open>OSError\<close> is raised again unless \<^verbatim>\<open>exist_ok\<close> is
  set and the path is a directory.
\<close>

function mkdir :: "path \<Rightarrow> bool \<Rightarrow> bool \<Rightarrow> world \<Rightarrow> error + world" where
  "mkdir p mk_parents exist_ok w =
     (case os_mkdir w p of
        Inr w' \<Rightarrow> Inr w'
      | Inl e \<Rightarrow>
          if e = FileNotFoundError then
            (if \<not> mk_parents \<or> parent p = p then Inl e
             else (case mkdir (parent p) True True w of
                     Inl e' \<Rightarrow> Inl e'
                   | Inr w1 \<Rightarrow> mkdir p False exist_ok w1))
          else if \<not> exist_ok \<or> \<not> is_dir w p then Inl e
          else Inr w)"
  by pat_completeness auto
termination
proof (relation "measure (\<lambda>(p, mk_parents, exist_ok, w). 2 * length (segs p) + (if mk_parents then 1 else 0))")
  show "wf (measure (\<lambda>(p, mk_parents, exist_ok, w). 2 * length (segs p) + (if mk_parents then 1 else 0)))"
    by simp
next
  fix p :: path and mk_parents exist_ok :: bool and w :: world and e
  assume "\<not> (\<not> mk_parents \<or> parent p = p)"
  then have "segs p \<noteq> []" by (auto simp: parent_def)
  then show "((parent p, True, True, w), p, mk_parents, exist_ok, w)
       \<in> measure (\<lambda>(p, mk_parents, exist_ok, w). 2 * length (segs p) + (if mk_parents then 1 else 0))"
    by (cases "segs p" rule: rev_cases) (simp_all add: parent_def)
next
  fix p :: path and mk_parents exist_ok :: bool and w w1 :: world
  assume "\<not> (\<not> mk_parents \<or> parent p = p)"
  then show "((p, False, exist_ok, w1), p, mk_parents, exist_ok, w)
       \<in> measure (\<lambda>(p, mk_parents, exist_ok, w). 2 * length (segs p) + (if mk_parents then 1 else 0))"
    by simp
qed

declare mkdir.simps [simp del]

text \<open>\<^verbatim>\<open>print(line)\<close>.\<close>

definition print :: "string \<Rightarrow> world \<Rightarrow> world" where
  "print line w = w\<lparr>stdout := stdout w @ [line]\<rparr>"

text \<open>
  A filesystem is well formed when the root is a directory and whatever exists lies in a
  directory that exists; a world is, when moreover its working directory is an absolute
  path and a directory.
\<close>

definition wf_fs :: "(loc \<Rightarrow> entry option) \<Rightarrow> bool" where
  "wf_fs f = (f [] = Some Dir \<and> (\<forall>l s. f (l @ [s]) \<noteq> None \<longrightarrow> f l = Some Dir))"

definition wf_world :: "world \<Rightarrow> bool" where
  "wf_world w =
     (wf_fs (fs w) \<and> is_absolute (getcwd w) \<and> fs w (segs (getcwd w)) = Some Dir)"

text \<open>
  What making directories along a location does to a world: nothing but the filesystem
  changes, it stays well formed, the location is a directory afterwards, whatever existed
  is as it was, and whatever is new is a directory on the way to the location.
\<close>

definition made_dirs :: "world \<Rightarrow> loc \<Rightarrow> world \<Rightarrow> bool" where
  "made_dirs w sq w' =
     (getcwd w' = getcwd w \<and> written w' = written w \<and> stdout w' = stdout w \<and>
      wf_fs (fs w') \<and> fs w' sq = Some Dir \<and>
      (\<forall>l. fs w l \<noteq> None \<longrightarrow> fs w' l = fs w l) \<and>
      (\<forall>l. fs w l = None \<longrightarrow> fs w' l \<noteq> None \<longrightarrow> fs w' l = Some Dir \<and> prefix l sq))"


section \<open>The path relativizer\<close>

text \<open>
  \<^verbatim>\<open>PurePath.relative_to(other)\<close>. Both paths are compared as drive, root and segments;
  when \<open>other\<close> is not a leading part of the path, \<^verbatim>\<open>ValueError\<close> is raised with a message of
  its own (the quoting of \<^verbatim>\<open>repr\<close> is modelled without its escapes).
\<close>

definition abs_parts :: "path \<Rightarrow> string list" where
  "abs_parts p = (if root p \<noteq> [] then [[], root p] @ segs p else segs p)"

definition from_parsed_parts :: "string \<Rightarrow> string list \<Rightarrow> path" where
  "from_parsed_parts r ps = \<lparr>root = r, segs = (if r = [] then ps else tl ps)\<rparr>"

definition does_not_start_with :: "path \<Rightarrow> path \<Rightarrow> string" where
  "does_not_start_with p other =
     CHR 0x27 # str_of p @ CHR 0x27 # '' does not start with '' @ CHR 0x27 # str_of other @ [CHR 0x27]"

definition pure_relative_to :: "path \<Rightarrow> path \<Rightarrow> error + path" where
  "pure_relative_to p other =
     (let to_abs_parts = abs_parts other;
          n = length to_abs_parts
      in if (if n = 0 then root p \<noteq> [] else take n (abs_parts p) \<noteq> to_abs_parts)
         then Inl (ValueError (does_not_start_with p other))
         else Inr (from_parsed_parts (if n = 1 then root p else []) (drop n (abs_parts p))))"

text \<open>
  Lines 100 to 102 of \<^verbatim>\<open>relative_to\<close>: the effective source directory is the absolute
  source, or its parent when the source is a regular file at that moment.
\<close>

definition effective_source :: "world \<Rightarrow> path \<Rightarrow> path" where
  "effective_source w source_path =
     (let source_path = absolute (getcwd w) source_path
      in if is_file w source_path then parent source_path else source_path)"

text \<open>
  \<^verbatim>\<open>relative_to(source_path, target_path)\<close>. \<^verbatim>\<open>find_common_prefix\<close> returns a path object or
  \<^verbatim>\<open>None\<close>, and a path object is always truthy, so \<^verbatim>\<open>not common_prefix\<close> holds exactly for
  \<^verbatim>\<open>None\<close>.
\<close>

definition relative_to :: "world \<Rightarrow> path \<Rightarrow> path \<Rightarrow> error + path" where
  "relative_to w source_path target_path =
     (let source_path = effective_source w source_path;
          target_path = absolute (getcwd w) target_path
      in case find_common_prefix (getcwd w) [source_path, target_path] of
           None \<Rightarrow> Inl (ValueError ''No common prefix'')
         | Some common_prefix \<Rightarrow>
             (case pure_relative_to source_path common_prefix of
                Inl e \<Rightarrow> Inl e
              | Inr source_rel \<Rightarrow>
                  (case pure_relative_to target_path common_prefix of
                     Inl e \<Rightarrow> Inl e
                   | Inr target_rel \<Rightarrow>
                       Inr (joinpath (Path_args (replicate (length (parts source_rel)) ''..''))
                              target_rel))))"

text \<open>
  \<^verbatim>\<open>os.path.normpath\<close>, on the segments of a parsed path: \<^verbatim>\<open>'..'\<close> removes the segment before
  it, is dropped at the root of an absolute path, and is kept at the start of a relative
  one.
\<close>

definition norm_step :: "bool \<Rightarrow> string list \<Rightarrow> string \<Rightarrow> string list" where
  "norm_step anchored new_comps component =
     (if component = [] \<or> component = ''.'' then new_comps
      else if component \<noteq> ''..'' \<or> (\<not> anchored \<and> new_comps = [])
              \<or> (new_comps \<noteq> [] \<and> last new_comps = ''..'')
      then new_comps @ [component]
      else if new_comps \<noteq> [] then butlast new_comps
      else new_comps)"

definition normpath :: "path \<Rightarrow> path" where
  "normpath p = \<lparr>root = root p, segs = foldl (norm_step (root p \<noteq> [])) [] (segs p)\<rparr>"

text \<open>
  Segments that are plain names: none is empty, \<^verbatim>\<open>'.'\<close> or \<^verbatim>\<open>'..'\<close>. The parser never
  produces the first two.
\<close>

definition plain :: "string list \<Rightarrow> bool" where
  "plain xs = list_all (\<lambda>s. s \<noteq> [] \<and> s \<noteq> ''.'' \<and> s \<noteq> ''..'') xs"


section \<open>Write-if-changed\<close>

text \<open>What a Python function hands back: \<^verbatim>\<open>None\<close> or a boolean, and its truth value.\<close>

datatype pyval = PyNone | PyBool bool

fun truthy :: "pyval \<Rightarrow> bool" where
  "truthy PyNone = False"
| "truthy (PyBool b) = b"

text \<open>
  \<^verbatim>\<open>write(contents, path, verbose)\<close>, here \<open>write_file\<close> (\<open>write\<close> is a keyword of Isabelle). The first two branches end in \<^verbatim>\<open>return False\<close> and
  \<^verbatim>\<open>return True\<close>; the third has no \<^verbatim>\<open>return\<close>, so the call yields \<^verbatim>\<open>None\<close>, as it does when
  neither \<^verbatim>\<open>if\<close> nor \<^verbatim>\<open>elif\<close> holds.
\<close>

definition write_file :: "string \<Rightarrow> path \<Rightarrow> bool \<Rightarrow> world \<Rightarrow> error + (pyval \<times> world)" where
  "write_file contents p verbose w =
     (if exists w p then
        (case open_read w p of
           Inl e \<Rightarrow> Inl e
         | Inr old_contents \<Rightarrow>
             if old_contents = contents then
               Inr (PyBool False, if verbose then print (''preserved: '' @ str_of p) w else w)
             else
               (case open_write contents p w of
                  Inl e \<Rightarrow> Inl e
                | Inr w1 \<Rightarrow>
                    Inr (PyBool True, if verbose then print (''rewrote: '' @ str_of p) w1 else w1)))
      else if \<not> exists w p then
        (case (if \<not> exists w (parent p) then mkdir (parent p) True False w else Inr w) of
           Inl e \<Rightarrow> Inl e
         | Inr w1 \<Rightarrow>
             (case open_write contents p w1 of
                Inl e \<Rightarrow> Inl e
              | Inr w2 \<Rightarrow>
                  Inr (PyNone, if verbose then print (''wrote: '' @ str_of p) w2 else w2)))
      else Inr (PyNone, w))"



section \<open>The walker\<close>

text \<open>
  The walker lists directories, so it is given the directory tree itself: a directory
  holds its entries by name, in the order the operating system lists them. Looked at by
  location, a tree is a filesystem as above.
\<close>

datatype node = FileN string | DirN "(string \<times> node) list"

fun subtree :: "node \<Rightarrow> loc \<Rightarrow> node option" where
  "subtree n [] = Some n"
| "subtree (FileN c) (s # ss) = None"
| "subtree (DirN es) (s # ss) =
     (case map_of es s of None \<Rightarrow> None | Some c \<Rightarrow> subtree c ss)"

fun entry_of :: "node \<Rightarrow> entry" where
  "entry_of (FileN c) = File c"
| "entry_of (DirN es) = Dir"

definition fs_of :: "node \<Rightarrow> loc \<Rightarrow> entry option" where
  "fs_of t l = map_option entry_of (subtree t l)"

fun is_dir_node :: "node \<Rightarrow> bool" where
  "is_dir_node (DirN es) = True"
| "is_dir_node (FileN c) = False"

text \<open>\<^verbatim>\<open>iterdir\<close> yields the directory's path extended by each entry's name.\<close>

definition make_child :: "path \<Rightarrow> string \<Rightarrow> path" where
  "make_child p name = p\<lparr>segs := segs p @ [name]\<rparr>"

type_synonym triple = "path \<times> path list \<times> path list"

text \<open>
  The body of \<^verbatim>\<open>walk\<close> on a directory whose listing succeeded. \<^verbatim>\<open>sorted\<close> orders the
  child paths by their parts, as \<^verbatim>\<open>pathlib\<close> compares paths; the children that are
  directories are walked in that order, and the directory's own triple comes before
  them when \<^verbatim>\<open>top_down\<close> is set and after them when it is not. The recursive calls are
  made on the child directories themselves; \<open>walk_child\<close> below shows that calling \<^verbatim>\<open>walk\<close>
  on a child's path, as the source does, yields the same.
\<close>

function walk_node :: "bool \<Rightarrow> path \<Rightarrow> node \<Rightarrow> triple list" where
  "walk_node top_down root_path (FileN c) = []"
| "walk_node top_down root_path (DirN es) =
     (let children = sort_key (\<lambda>(name, c). parts (make_child root_path name)) es;
          directory_paths = map (\<lambda>(name, c). make_child root_path name)
                              (filter (\<lambda>(name, c). is_dir_node c) children);
          file_paths = map (\<lambda>(name, c). make_child root_path name)
                         (filter (\<lambda>(name, c). \<not> is_dir_node c) children)
      in (if top_down then [(root_path, directory_paths, file_paths)] else [])
         @ concat (map (\<lambda>(name, c). walk_node top_down (make_child root_path name) c)
                     (filter (\<lambda>(name, c). is_dir_node c) children))
         @ (if \<not> top_down then [(root_path, directory_paths, file_paths)] else []))"
  by pat_completeness auto
termination
proof (relation "measure (\<lambda>(top_down, root_path, t). size t)")
  show "wf (measure (\<lambda>(top_down, root_path, t). size t))" by simp
next
  fix top_down :: bool and root_path :: path and es :: "(string \<times> node) list"
    and children x name c
  assume ch: "children = sort_key (\<lambda>(name, c). parts (make_child root_path name)) es"
    and x: "x \<in> set (filter (\<lambda>(name, c). is_dir_node c) children)"
    and xe: "(name, c) = x"
  from ch x xe have "(name, c) \<in> set es" by simp
  then have "size c < size (DirN es)"
    by (induction es) auto
  then show "((top_down, make_child root_path name, c), top_down, root_path, DirN es)
       \<in> measure (\<lambda>(top_down, root_path, t). size t)"
    by simp
qed

text \<open>
  \<^verbatim>\<open>walk(root_path, top_down)\<close>, with every triple it yields in order. Listing a path that
  does not exist, or that is not a directory, raises.
\<close>

definition walk :: "path \<Rightarrow> node \<Rightarrow> path \<Rightarrow> bool \<Rightarrow> error + triple list" where
  "walk cwd tree root_path top_down =
     (case namei (fs_of tree) [] (segs (absolute cwd root_path)) of
        Inl e \<Rightarrow> Inl e
      | Inr l \<Rightarrow>
          (case subtree tree l of
             None \<Rightarrow> Inl FileNotFoundError
           | Some (FileN c) \<Rightarrow> Inl NotADirectoryError
           | Some (DirN es) \<Rightarrow> Inr (walk_node top_down root_path (DirN es))))"





text \<open>A directory with a file and a subdirectory that holds an empty directory.\<close>

definition example_tree :: node where
  "example_tree = DirN [(''b'', DirN [(''x'', DirN [])]), (''a'', FileN ''1'')]"


section \<open>A small filesystem for the examples\<close>

text \<open>
  The directories \<^verbatim>\<open>/a\<close>, \<^verbatim>\<open>/a/b\<close> and \<^verbatim>\<open>/a/b/c\<close>, the files \<^verbatim>\<open>/a/b/c/file.txt\<close> and
  \<^verbatim>\<open>/a/b/file.txt\<close>, and \<^verbatim>\<open>/a/b\<close> as the working directory.
\<close>

definition example_world :: world where
  "example_world =
     \<lparr>getcwd = \<lparr>root = ''/'', segs = [''a'', ''b'']\<rparr>,
      fs = map_of [([], Dir), ([''a''], Dir), ([''a'', ''b''], Dir), ([''a'', ''b'', ''c''], Dir),
                   ([''a'', ''b'', ''c'', ''file.txt''], File ''old''),
                   ([''a'', ''b'', ''file.txt''], File ''old'')],
      written = [], stdout = []\<rparr>"


section \<open>Evaluating the parser\<close>

text \<open>
  \<^verbatim>\<open>str.split\<close> never returns an empty list, so the step of \<open>split_sep\<close> can be read with
  one recursive call instead of two; the simplifier then splits a literal in linear time.
\<close>

lemma split_sep_nonempty: "split_sep s \<noteq> []"
  by (induction s) simp_all

lemma split_sep_Cons:
  "split_sep (c # cs) =
     (if c = CHR ''/'' then [] # split_sep cs
      else (case split_sep cs of [] \<Rightarrow> [[c]] | x # xs \<Rightarrow> (c # x) # xs))"
  using split_sep_nonempty [of cs] by (cases "split_sep cs") simp_all

declare split_sep.simps(2) [simp del]

declare split_sep_Cons [simp]

section \<open>Properties of the common-prefix finder\<close>

text \<open>
  C8. For the empty collection of paths \<^verbatim>\<open>find_common_prefix\<close> returns no path.
\<close>

theorem find_common_prefix_empty: "find_common_prefix cwd [] = None"
  by (simp add: find_common_prefix_def count_paths_def)

subsection \<open>What the counter holds\<close>

lemma prefix_iff_take: "prefix xs ys \<longleftrightarrow> (\<exists>k\<le>length ys. xs = take k ys)"
proof
  assume "prefix xs ys"
  then obtain zs where "ys = xs @ zs" by (auto simp: prefix_def)
  then have "length xs \<le> length ys" "xs = take (length xs) ys" by simp_all
  then show "\<exists>k\<le>length ys. xs = take k ys" by blast
next
  assume "\<exists>k\<le>length ys. xs = take k ys"
  then show "prefix xs ys" by (auto simp: take_is_prefix)
qed

lemma path_eq_iff: "(q::path) = p \<longleftrightarrow> root q = root p \<and> segs q = segs p"
  by (cases q, cases p) simp

lemma in_parents_iff:
  "q \<in> set (parents p) \<longleftrightarrow> (\<exists>k<length (segs p). root q = root p \<and> segs q = take k (segs p))"
  by (auto simp: parents_def path_eq_iff image_iff)

lemma self_or_parents_iff:
  "q \<in> set (p # parents p) \<longleftrightarrow> is_ancestor_or_self q p"
proof
  assume "q \<in> set (p # parents p)"
  then show "is_ancestor_or_self q p"
    by (auto simp: in_parents_iff is_ancestor_or_self_def take_is_prefix)
next
  assume a: "is_ancestor_or_self q p"
  then obtain k where k: "k \<le> length (segs p)" "segs q = take k (segs p)"
    by (auto simp: is_ancestor_or_self_def prefix_iff_take)
  from a have r: "root q = root p" by (simp add: is_ancestor_or_self_def)
  show "q \<in> set (p # parents p)"
  proof (cases "k = length (segs p)")
    case True
    with k r have "q = p" by (simp add: path_eq_iff)
    then show ?thesis by simp
  next
    case False
    with k have "k < length (segs p)" by simp
    with k r have "q \<in> set (parents p)" by (auto simp: in_parents_iff)
    then show ?thesis by simp
  qed
qed

lemma distinct_self_parents: "distinct (p # parents p)"
proof -
  have inj: "inj_on (\<lambda>k. p\<lparr>segs := take k (segs p)\<rparr>) {0..<length (segs p)}"
  proof (rule inj_onI)
    fix i j
    assume i: "i \<in> {0..<length (segs p)}" and j: "j \<in> {0..<length (segs p)}"
      and e: "p\<lparr>segs := take i (segs p)\<rparr> = p\<lparr>segs := take j (segs p)\<rparr>"
    from e have "take i (segs p) = take j (segs p)" by (simp add: path_eq_iff)
    then have "length (take i (segs p)) = length (take j (segs p))" by simp
    with i j show "i = j" by simp
  qed
  have "distinct (parents p)"
    unfolding parents_def by (simp add: distinct_map inj)
  moreover have "p \<notin> set (parents p)"
  proof
    assume "p \<in> set (parents p)"
    then obtain k where k: "k < length (segs p)" and e: "segs p = take k (segs p)"
      by (auto simp: in_parents_iff)
    have "length (take k (segs p)) \<le> k" by simp
    then have "length (segs p) \<le> k" by (simp only: e [symmetric])
    with k show False by simp
  qed
  ultimately show ?thesis by simp
qed

lemma count_of_incr: "count_of (counter_incr k cnt) q = count_of cnt q + (if q = k then 1 else 0)"
  by (induction cnt) (auto simp: count_of_def)

lemma keys_incr: "fst ` set (counter_incr k cnt) = insert k (fst ` set cnt)"
proof (induction cnt)
  case Nil
  then show ?case by simp
next
  case (Cons kv cnt)
  obtain k' c where kv: "kv = (k', c)" by (cases kv)
  from Cons kv show ?case by (cases "k = k'") auto
qed

lemma distinct_incr: "distinct (map fst cnt) \<Longrightarrow> distinct (map fst (counter_incr k cnt))"
proof (induction cnt)
  case Nil
  then show ?case by simp
next
  case (Cons kv cnt)
  obtain k' c where kv: "kv = (k', c)" by (cases kv)
  show ?case
  proof (cases "k = k'")
    case True
    with Cons.prems kv show ?thesis by simp
  next
    case False
    from Cons kv have "distinct (map fst (counter_incr k cnt))" by simp
    moreover from Cons.prems kv False have "k' \<notin> fst ` set (counter_incr k cnt)"
      by (simp add: keys_incr)
    ultimately show ?thesis using kv False by simp
  qed
qed

lemma count_of_update:
  "count_of (counter_update ks cnt) q = count_of cnt q + count_list ks q"
  unfolding counter_update_def
  by (induction ks arbitrary: cnt) (auto simp: count_of_incr)

lemma distinct_update:
  "distinct (map fst cnt) \<Longrightarrow> distinct (map fst (counter_update ks cnt))"
  unfolding counter_update_def
  by (induction ks arbitrary: cnt) (auto simp: distinct_incr)

lemma count_list_distinct: "distinct xs \<Longrightarrow> count_list xs q = (if q \<in> set xs then 1 else 0)"
  by (induction xs) auto

lemma count_of_one_path:
  "count_of (counter_update (parents p) (counter_update [p] cnt)) q =
     count_of cnt q + (if is_ancestor_or_self q p then 1 else 0)"
proof -
  have "count_list [p] q + count_list (parents p) q = count_list (p # parents p) q"
    by simp
  also have "\<dots> = (if q \<in> set (p # parents p) then 1 else 0)"
    by (rule count_list_distinct [OF distinct_self_parents])
  finally have "count_list [p] q + count_list (parents p) q = (if is_ancestor_or_self q p then 1 else 0)"
    by (simp only: self_or_parents_iff)
  then show ?thesis by (simp add: count_of_update)
qed

lemma count_of_foldl:
  "count_of (foldl (\<lambda>cnt p. let p' = absolute cwd p in
                     counter_update (parents p') (counter_update [p'] cnt)) cnt0 ps) q =
     count_of cnt0 q + length (filter (\<lambda>p. is_ancestor_or_self q (absolute cwd p)) ps)"
  by (induction ps arbitrary: cnt0) (simp_all add: Let_def count_of_one_path)

lemma distinct_foldl:
  "distinct (map fst cnt0) \<Longrightarrow>
   distinct (map fst (foldl (\<lambda>cnt p. let p' = absolute cwd p in
                     counter_update (parents p') (counter_update [p'] cnt)) cnt0 ps))"
  by (induction ps arbitrary: cnt0) (simp_all add: Let_def distinct_update)

lemma count_of_count_paths:
  "count_of (count_paths cwd ps) q =
     length (filter (\<lambda>p. is_ancestor_or_self q (absolute cwd p)) ps)"
proof -
  have "count_of [] q = 0" by (simp add: count_of_def)
  then show ?thesis by (simp only: count_paths_def count_of_foldl)
qed

lemma distinct_count_paths: "distinct (map fst (count_paths cwd ps))"
  unfolding count_paths_def by (rule distinct_foldl) simp

lemma candidates_set:
  assumes "distinct (map fst cnt)" "0 < n"
  shows "set (map fst (filter (\<lambda>(p, count). count \<ge> n) cnt)) = {q. n \<le> count_of cnt q}"
proof -
  have "\<And>q c. (q, c) \<in> set cnt \<longleftrightarrow> map_of cnt q = Some c"
    using assms(1) by simp
  then show ?thesis using assms(2)
    by (auto simp: count_of_def image_iff split: option.splits)
qed

subsection \<open>The result is the deepest common ancestor\<close>

lemma sorted_last_max: "sorted (map f xs) \<Longrightarrow> x \<in> set xs \<Longrightarrow> f x \<le> f (last xs)"
  by (induction xs) auto

lemma filter_all_iff: "length xs \<le> length (filter P xs) \<longleftrightarrow> (\<forall>x \<in> set xs. P x)"
proof
  assume a: "length xs \<le> length (filter P xs)"
  show "\<forall>x \<in> set xs. P x"
  proof
    fix x assume "x \<in> set xs"
    show "P x"
    proof (rule ccontr)
      assume "\<not> P x"
      with \<open>x \<in> set xs\<close> have "length (filter P xs) < length xs" by (rule length_filter_less)
      with a show False by simp
    qed
  qed
next
  assume "\<forall>x \<in> set xs. P x"
  then have "filter P xs = xs" by (simp add: filter_id_conv)
  then show "length xs \<le> length (filter P xs)" by simp
qed

lemma candidates_common:
  assumes "ps \<noteq> []"
  shows "set (map fst (filter (\<lambda>(p, count). count \<ge> length ps) (count_paths cwd ps)))
           = {q. common_ancestor q (map (absolute cwd) ps)}"
proof -
  from assms have "0 < length ps" by simp
  with distinct_count_paths
  have "set (map fst (filter (\<lambda>(p, count). count \<ge> length ps) (count_paths cwd ps)))
          = {q. length ps \<le> count_of (count_paths cwd ps) q}"
    by (rule candidates_set)
  then show ?thesis
    by (simp only: count_of_count_paths filter_all_iff common_ancestor_def) simp
qed

lemma find_common_prefix_None:
  assumes "ps \<noteq> []"
  shows "find_common_prefix cwd ps = None \<longleftrightarrow> \<not> (\<exists>r. common_ancestor r (map (absolute cwd) ps))"
proof -
  let ?cs = "map fst (filter (\<lambda>(p, count). count \<ge> length ps) (count_paths cwd ps))"
  have "find_common_prefix cwd ps = None \<longleftrightarrow> set (sort_key (\<lambda>x. length (parts x)) ?cs) = {}"
    by (simp add: find_common_prefix_def Let_def del: set_sort)
  also have "\<dots> \<longleftrightarrow> set ?cs = {}" by (simp only: set_sort)
  also have "\<dots> \<longleftrightarrow> \<not> (\<exists>r. common_ancestor r (map (absolute cwd) ps))"
    by (simp only: candidates_common [OF assms]) auto
  finally show ?thesis .
qed

lemma find_common_prefix_Some:
  assumes "ps \<noteq> []" and "find_common_prefix cwd ps = Some q"
  shows "deepest_common_ancestor q (map (absolute cwd) ps)"
proof -
  let ?cs = "map fst (filter (\<lambda>(p, count). count \<ge> length ps) (count_paths cwd ps))"
  let ?ss = "sort_key (\<lambda>x. length (parts x)) ?cs"
  from assms(2) have ne: "?ss \<noteq> []" and q: "q = last ?ss"
    by (auto simp: find_common_prefix_def Let_def split: if_splits)
  from ne have "last ?ss \<in> set ?ss" by (rule last_in_set)
  with q have "q \<in> set ?cs" by (simp only: set_sort)
  then have c: "common_ancestor q (map (absolute cwd) ps)"
    by (simp only: candidates_common [OF assms(1)]) simp
  have d: "length (parts r) \<le> length (parts q)" if "common_ancestor r (map (absolute cwd) ps)" for r
  proof -
    from that have "r \<in> set ?cs" by (simp only: candidates_common [OF assms(1)]) simp
    then have "r \<in> set ?ss" by (simp only: set_sort)
    moreover have "sorted (map (\<lambda>x. length (parts x)) ?ss)" by (rule sorted_sort_key)
    ultimately have "length (parts r) \<le> length (parts (last ?ss))"
      by (rule sorted_last_max [rotated])
    with q show ?thesis by simp
  qed
  from c d show ?thesis by (simp add: deepest_common_ancestor_def)
qed

lemma ancestors_same_depth:
  assumes "is_ancestor_or_self q p" "is_ancestor_or_self r p"
    and "length (parts q) = length (parts r)"
  shows "q = r"
proof -
  from assms(1,2) have rt: "root q = root r" by (simp add: is_ancestor_or_self_def)
  with assms(3) have len: "length (segs q) = length (segs r)" by (simp add: parts_def split: if_splits)
  from assms(1,2) obtain a b where "segs p = segs q @ a" "segs p = segs r @ b"
    by (auto simp: is_ancestor_or_self_def prefix_def)
  then have "segs q @ a = segs r @ b" by simp
  with len have "segs q = segs r" by simp
  with rt show ?thesis by (simp add: path_eq_iff)
qed

lemma deepest_unique:
  assumes "ps \<noteq> []" "deepest_common_ancestor q ps" "deepest_common_ancestor r ps"
  shows "q = r"
proof -
  from assms(1) obtain p where p: "p \<in> set ps" by (cases ps) auto
  from assms(2,3) have "length (parts q) = length (parts r)"
    by (auto simp: deepest_common_ancestor_def intro: le_antisym)
  moreover from assms(2,3) p have "is_ancestor_or_self q p" "is_ancestor_or_self r p"
    by (auto simp: deepest_common_ancestor_def common_ancestor_def)
  ultimately show ?thesis by (auto intro: ancestors_same_depth)
qed

lemma find_common_prefix_iff:
  assumes "ps \<noteq> []"
  shows "find_common_prefix cwd ps = Some q \<longleftrightarrow> deepest_common_ancestor q (map (absolute cwd) ps)"
proof
  assume "find_common_prefix cwd ps = Some q"
  with assms show "deepest_common_ancestor q (map (absolute cwd) ps)"
    by (rule find_common_prefix_Some)
next
  assume d: "deepest_common_ancestor q (map (absolute cwd) ps)"
  then have "\<exists>r. common_ancestor r (map (absolute cwd) ps)"
    by (auto simp: deepest_common_ancestor_def)
  with find_common_prefix_None [OF assms, of cwd]
  obtain q' where q': "find_common_prefix cwd ps = Some q'" by (cases "find_common_prefix cwd ps") auto
  with assms have "deepest_common_ancestor q' (map (absolute cwd) ps)"
    by (rule find_common_prefix_Some)
  moreover from assms have "map (absolute cwd) ps \<noteq> []" by simp
  ultimately have "q' = q" using d by (auto intro: deepest_unique)
  with q' show "find_common_prefix cwd ps = Some q" by simp
qed

lemma deepest_single: "deepest_common_ancestor p [p]"
  by (auto simp: deepest_common_ancestor_def common_ancestor_def is_ancestor_or_self_def
      parts_def dest: prefix_length_le)

lemma find_common_prefix_scenario: "find_common_prefix cwd [Path ''/a/b/c'', Path ''/a/b/d''] = Some (Path ''/a/b'')"
  by (simp add: find_common_prefix_def count_paths_def counter_update_def parents_def
      absolute_def is_absolute_def Path_def splitroot_def parts_def Let_def upt_rec)

lemma common_root_ancestor:
  assumes "\<forall>p \<in> set ps. root (absolute cwd p) = root (absolute cwd (hd ps))"
  shows "common_ancestor \<lparr>root = root (absolute cwd (hd ps)), segs = []\<rparr> (map (absolute cwd) ps)"
  using assms by (simp add: common_ancestor_def is_ancestor_or_self_def)

text \<open>
  C1, as amended. The inputs are compared in the form \<^verbatim>\<open>Path.absolute()\<close> gives them: the
  working directory is put before a relative path and nothing is resolved, so \<^verbatim>\<open>'..'\<close>
  segments stay. For a non-empty collection of paths, \<^verbatim>\<open>find_common_prefix\<close> returns a path
  \<open>q\<close> exactly when \<open>q\<close> is the deepest path that is an ancestor-or-self of every input in
  that form, and it returns nothing exactly when these forms have no common ancestor at
  all; inputs whose absolute forms share their root always have one. For a single path it
  returns that path's absolute form, and for \<^verbatim>\<open>/a/b/c\<close> and \<^verbatim>\<open>/a/b/d\<close> it returns \<^verbatim>\<open>/a/b\<close>.
\<close>

theorem find_common_prefix_deepest:
  assumes "paths \<noteq> []"
  shows "(find_common_prefix cwd paths = Some q \<longleftrightarrow>
            deepest_common_ancestor q (map (absolute cwd) paths))
       \<and> (find_common_prefix cwd paths = None \<longleftrightarrow>
            \<not> (\<exists>r. common_ancestor r (map (absolute cwd) paths)))
       \<and> ((\<forall>p \<in> set paths. root (absolute cwd p) = root (absolute cwd (hd paths))) \<longrightarrow>
            find_common_prefix cwd paths \<noteq> None)
       \<and> find_common_prefix cwd [P] = Some (absolute cwd P)
       \<and> find_common_prefix cwd [Path ''/a/b/c'', Path ''/a/b/d''] = Some (Path ''/a/b'')"
proof -
  have one: "find_common_prefix cwd [P] = Some (absolute cwd P)"
    by (simp add: find_common_prefix_iff deepest_single)
  have root: "find_common_prefix cwd paths \<noteq> None"
    if "\<forall>p \<in> set paths. root (absolute cwd p) = root (absolute cwd (hd paths))"
    using find_common_prefix_None [OF assms, of cwd] common_root_ancestor [OF that] by blast
  from root one show ?thesis
    by (simp only: find_common_prefix_iff [OF assms] find_common_prefix_None [OF assms]
        find_common_prefix_scenario) simp
qed

theorem find_common_prefix_deepest_witness:
  "[Path ''/srv/www'', Path ''logs''] \<noteq> []
   \<and> find_common_prefix (Path ''/srv'')
        [Path ''/srv/www'', Path ''logs'']
       = Some (Path ''/srv'')
   \<and> deepest_common_ancestor (Path ''/srv'')
        (map (absolute (Path ''/srv''))
           [Path ''/srv/www'', Path ''logs''])"
proof -
  have ne: "[Path ''/srv/www'', Path ''logs''] \<noteq> []"
    by simp
  have ev: "find_common_prefix (Path ''/srv'')
        [Path ''/srv/www'', Path ''logs'']
       = Some (Path ''/srv'')"
    by (simp add: find_common_prefix_def count_paths_def counter_update_def parents_def
        absolute_def is_absolute_def joinpath_def Path_def splitroot_def parts_def Let_def upt_rec)
  from find_common_prefix_deepest [OF ne, of "Path ''/srv''" "Path ''/srv''"] ev ne
  show ?thesis by simp
qed

text \<open>
  The claim as the specification words it resolves \<^verbatim>\<open>'..'\<close> before comparing. The code does
  not: for \<^verbatim>\<open>/a/b/../c/x\<close> and \<^verbatim>\<open>/a/c/y\<close> it returns \<^verbatim>\<open>/a\<close>, although the resolved inputs
  \<^verbatim>\<open>/a/c/x\<close> and \<^verbatim>\<open>/a/c/y\<close> have the deeper common ancestor \<^verbatim>\<open>/a/c\<close>.
\<close>

theorem find_common_prefix_resolved_counterexample:
  "find_common_prefix (Path ''/'') [Path ''/a/b/../c/x'', Path ''/a/c/y''] = Some (Path ''/a'')
   \<and> map (\<lambda>p. normpath (absolute (Path ''/'') p)) [Path ''/a/b/../c/x'', Path ''/a/c/y'']
       = [Path ''/a/c/x'', Path ''/a/c/y'']
   \<and> common_ancestor (Path ''/a/c'') [Path ''/a/c/x'', Path ''/a/c/y'']
   \<and> length (parts (Path ''/a'')) < length (parts (Path ''/a/c''))
   \<and> \<not> deepest_common_ancestor (Path ''/a'') [Path ''/a/c/x'', Path ''/a/c/y'']"
proof -
  have P: "Path ''/'' = \<lparr>root = ''/'', segs = []\<rparr>"
    "Path ''/a/b/../c/x'' = \<lparr>root = ''/'', segs = [''a'', ''b'', ''..'', ''c'', ''x'']\<rparr>"
    "Path ''/a/c/y'' = \<lparr>root = ''/'', segs = [''a'', ''c'', ''y'']\<rparr>"
    "Path ''/a/c/x'' = \<lparr>root = ''/'', segs = [''a'', ''c'', ''x'']\<rparr>"
    "Path ''/a/c'' = \<lparr>root = ''/'', segs = [''a'', ''c'']\<rparr>"
    "Path ''/a'' = \<lparr>root = ''/'', segs = [''a'']\<rparr>"
    by (simp_all add: Path_def splitroot_def)
  have f: "find_common_prefix (Path ''/'') [Path ''/a/b/../c/x'', Path ''/a/c/y''] = Some (Path ''/a'')"
    by (simp add: P find_common_prefix_def count_paths_def counter_update_def parents_def
        absolute_def is_absolute_def parts_def Let_def upt_rec)
  have n: "map (\<lambda>p. normpath (absolute (Path ''/'') p)) [Path ''/a/b/../c/x'', Path ''/a/c/y'']
       = [Path ''/a/c/x'', Path ''/a/c/y'']"
    by (simp add: P normpath_def norm_step_def absolute_def is_absolute_def)
  have c: "common_ancestor (Path ''/a/c'') [Path ''/a/c/x'', Path ''/a/c/y'']"
    by (simp add: P common_ancestor_def is_ancestor_or_self_def)
  have l: "length (parts (Path ''/a'')) < length (parts (Path ''/a/c''))"
    by (simp add: P parts_def)
  from c l have d: "\<not> deepest_common_ancestor (Path ''/a'') [Path ''/a/c/x'', Path ''/a/c/y'']"
    by (auto simp: deepest_common_ancestor_def)
  from f n c l d show ?thesis by blast
qed

section \<open>Properties of the path relativizer\<close>

subsection \<open>Absolute paths and the parts of the result\<close>

lemma absolute_absolute: "is_absolute p \<Longrightarrow> absolute cwd p = p"
  by (simp add: absolute_def)

lemma is_absolute_absolute: "is_absolute cwd \<Longrightarrow> is_absolute (absolute cwd p)"
  by (simp add: absolute_def is_absolute_def joinpath_def)

lemma is_absolute_parent: "is_absolute p \<Longrightarrow> is_absolute (parent p)"
  by (simp add: is_absolute_def parent_def)

lemma is_absolute_effective_source:
  "is_absolute (getcwd w) \<Longrightarrow> is_absolute (effective_source w p)"
  by (simp add: effective_source_def Let_def is_absolute_absolute is_absolute_parent)

lemma pure_relative_to_ancestor:
  assumes "is_ancestor_or_self q p" and "is_absolute p"
  shows "pure_relative_to p q = Inr \<lparr>root = [], segs = drop (length (segs q)) (segs p)\<rparr>"
proof -
  from assms(1) have r: "root q = root p" and pre: "prefix (segs q) (segs p)"
    by (simp_all add: is_ancestor_or_self_def)
  from pre have t: "take (length (segs q)) (segs p) = segs q"
    by (auto simp: prefix_def)
  from assms(2) have nz: "root p \<noteq> []" by (simp add: is_absolute_def)
  from r nz t show ?thesis
    by (simp add: pure_relative_to_def abs_parts_def from_parsed_parts_def Let_def)
qed

lemma Path_dotdot: "Path ''..'' = \<lparr>root = [], segs = [''..'']\<rparr>"
  by (simp add: Path_def splitroot_def)

lemma foldl_joinpath_dotdot:
  "foldl joinpath \<lparr>root = r, segs = xs\<rparr> (replicate n \<lparr>root = [], segs = [''..'']\<rparr>)
     = \<lparr>root = r, segs = xs @ replicate n ''..''\<rparr>"
proof (induction n arbitrary: xs)
  case 0
  then show ?case by simp
next
  case (Suc n)
  have step: "joinpath \<lparr>root = r, segs = xs\<rparr> \<lparr>root = [], segs = [''..'']\<rparr>
                = \<lparr>root = r, segs = xs @ [''..'']\<rparr>"
    by (simp add: joinpath_def)
  show ?case by (simp add: step Suc)
qed

lemma Path_args_dotdot: "Path_args (replicate n ''..'') = \<lparr>root = [], segs = replicate n ''..''\<rparr>"
  using foldl_joinpath_dotdot [of "[]" "[]" n]
  by (simp add: Path_args_def Path_dotdot)

lemma common_prefix_ancestors:
  assumes "is_absolute s" "is_absolute t" and "find_common_prefix cwd [s, t] = Some cp"
  shows "is_ancestor_or_self cp s \<and> is_ancestor_or_self cp t"
proof -
  have "deepest_common_ancestor cp (map (absolute cwd) [s, t])"
    using assms(3) by (simp add: find_common_prefix_iff)
  with assms(1,2) show ?thesis
    by (simp add: absolute_absolute deepest_common_ancestor_def common_ancestor_def)
qed

lemma relative_to_Some:
  assumes "is_absolute (getcwd w)"
    and "find_common_prefix (getcwd w)
           [effective_source w source_path, absolute (getcwd w) target_path] = Some cp"
  shows "relative_to w source_path target_path =
     Inr \<lparr>root = [],
          segs = replicate (length (segs (effective_source w source_path)) - length (segs cp)) ''..''
                 @ drop (length (segs cp)) (segs (absolute (getcwd w) target_path))\<rparr>"
proof -
  let ?s = "effective_source w source_path" and ?t = "absolute (getcwd w) target_path"
  have s: "is_absolute ?s" and t: "is_absolute ?t"
    using assms(1) by (simp_all add: is_absolute_effective_source is_absolute_absolute)
  from common_prefix_ancestors [OF s t assms(2)]
  have a: "is_ancestor_or_self cp ?s" "is_ancestor_or_self cp ?t" by simp_all
  have ps: "pure_relative_to ?s cp = Inr \<lparr>root = [], segs = drop (length (segs cp)) (segs ?s)\<rparr>"
    using a(1) s by (rule pure_relative_to_ancestor)
  have pt: "pure_relative_to ?t cp = Inr \<lparr>root = [], segs = drop (length (segs cp)) (segs ?t)\<rparr>"
    using a(2) t by (rule pure_relative_to_ancestor)
  show ?thesis
    by (simp add: relative_to_def Let_def assms(2) ps pt parts_def Path_args_dotdot joinpath_def)
qed

lemma relative_to_None:
  "find_common_prefix (getcwd w)
     [effective_source w source_path, absolute (getcwd w) target_path] = None
   \<Longrightarrow> relative_to w source_path target_path = Inl (ValueError ''No common prefix'')"
  by (simp add: relative_to_def Let_def)

lemma pure_relative_to_message:
  "pure_relative_to p q \<noteq> Inl (ValueError ''No common prefix'')"
  by (simp add: pure_relative_to_def Let_def does_not_start_with_def)

lemma relative_to_message:
  assumes "relative_to w source_path target_path = Inl (ValueError ''No common prefix'')"
  shows "find_common_prefix (getcwd w)
     [effective_source w source_path, absolute (getcwd w) target_path] = None"
proof (rule ccontr)
  assume "find_common_prefix (getcwd w)
     [effective_source w source_path, absolute (getcwd w) target_path] \<noteq> None"
  then obtain cp where "find_common_prefix (getcwd w)
     [effective_source w source_path, absolute (getcwd w) target_path] = Some cp" by auto
  with assms pure_relative_to_message show False
    by (auto simp: relative_to_def Let_def split: sum.splits)
qed

lemma find_common_prefix_same:
  assumes "is_absolute p"
  shows "find_common_prefix cwd [p, p] = Some p"
proof -
  have "deepest_common_ancestor p [p, p]"
    by (auto simp: deepest_common_ancestor_def common_ancestor_def is_ancestor_or_self_def
        parts_def dest: prefix_length_le)
  with assms show ?thesis by (simp add: find_common_prefix_iff absolute_absolute)
qed

subsection \<open>Evaluating the examples\<close>

lemma Path_examples:
  "Path ''/a/b/c/file.txt'' = \<lparr>root = ''/'', segs = [''a'', ''b'', ''c'', ''file.txt'']\<rparr>"
  "Path ''/a/b/d/target.txt'' = \<lparr>root = ''/'', segs = [''a'', ''b'', ''d'', ''target.txt'']\<rparr>"
  "Path ''../d/target.txt'' = \<lparr>root = [], segs = [''..'', ''d'', ''target.txt'']\<rparr>"
  "Path ''c/file.txt'' = \<lparr>root = [], segs = [''c'', ''file.txt'']\<rparr>"
  "Path ''/a/x/y'' = \<lparr>root = ''/'', segs = [''a'', ''x'', ''y'']\<rparr>"
  "Path ''../../x/y'' = \<lparr>root = [], segs = [''..'', ''..'', ''x'', ''y'']\<rparr>"
  "Path ''/a'' = \<lparr>root = ''/'', segs = [''a'']\<rparr>"
  "Path ''//srv/x'' = \<lparr>root = ''//'', segs = [''srv'', ''x'']\<rparr>"
  "Path ''c'' = \<lparr>root = [], segs = [''c'']\<rparr>"
  "Path ''.'' = \<lparr>root = [], segs = []\<rparr>"
  by (simp_all add: Path_def splitroot_def)

lemma absolute_rooted [simp]:
  "absolute cwd \<lparr>root = CHR ''/'' # r, segs = s\<rparr> = \<lparr>root = CHR ''/'' # r, segs = s\<rparr>"
  by (simp add: absolute_def is_absolute_def)

lemma example_world_simps:
  "getcwd example_world = \<lparr>root = ''/'', segs = [''a'', ''b'']\<rparr>"
  "is_absolute (getcwd example_world)"
  by (simp_all add: example_world_def is_absolute_def)

lemma example_is_file:
  "is_file example_world \<lparr>root = ''/'', segs = [''a'', ''b'', ''c'', ''file.txt'']\<rparr>"
  by (simp add: is_file_def os_stat_def resolve_def absolute_def is_absolute_def example_world_def)

lemma example_effective_source:
  "effective_source example_world \<lparr>root = [], segs = [''c'', ''file.txt'']\<rparr>
     = \<lparr>root = ''/'', segs = [''a'', ''b'', ''c'']\<rparr>"
proof -
  have a: "absolute (getcwd example_world) \<lparr>root = [], segs = [''c'', ''file.txt'']\<rparr>
             = \<lparr>root = ''/'', segs = [''a'', ''b'', ''c'', ''file.txt'']\<rparr>"
    by (simp add: absolute_def is_absolute_def joinpath_def example_world_simps)
  show ?thesis
    by (simp add: effective_source_def Let_def a example_is_file parent_def)
qed

lemma find_common_prefix_eval:
  "find_common_prefix cwd [\<lparr>root = ''/'', segs = [''a'', ''b'', ''c'']\<rparr>,
       \<lparr>root = ''/'', segs = [''a'', ''b'', ''d'', ''target.txt'']\<rparr>]
     = Some \<lparr>root = ''/'', segs = [''a'', ''b'']\<rparr>"
  "find_common_prefix cwd [\<lparr>root = ''/'', segs = [''a'', ''b'', ''c'']\<rparr>,
       \<lparr>root = ''/'', segs = [''a'', ''x'', ''y'']\<rparr>]
     = Some \<lparr>root = ''/'', segs = [''a'']\<rparr>"
  "find_common_prefix cwd [\<lparr>root = ''//'', segs = [''srv'', ''x'']\<rparr>, \<lparr>root = ''/'', segs = [''a'']\<rparr>]
     = None"
  by (simp_all add: find_common_prefix_def count_paths_def counter_update_def parents_def
      absolute_def is_absolute_def parts_def Let_def upt_rec)

text \<open>
  C2. When the effective source directory and the absolute target have a common prefix,
  \<^verbatim>\<open>relative_to\<close> returns the relative path made of one \<^verbatim>\<open>'..'\<close> for every segment of the
  effective source directory below the common prefix, followed by the target's segments
  below the common prefix, in order. With \<^verbatim>\<open>/a/b/c/file.txt\<close> a file,
  \<^verbatim>\<open>relative_to('/a/b/c/file.txt', '/a/b/d/target.txt')\<close> is \<^verbatim>\<open>'../d/target.txt'\<close>.
\<close>

theorem relative_to_steps:
  "(is_absolute (getcwd w) \<and>
    find_common_prefix (getcwd w)
      [effective_source w source_path, absolute (getcwd w) target_path] = Some common_prefix \<longrightarrow>
    relative_to w source_path target_path =
      Inr \<lparr>root = [],
           segs = replicate (length (segs (effective_source w source_path))
                             - length (segs common_prefix)) ''..''
                  @ drop (length (segs common_prefix)) (segs (absolute (getcwd w) target_path))\<rparr>)
   \<and> (is_file w (Path ''/a/b/c/file.txt'') \<longrightarrow>
        relative_to w (Path ''/a/b/c/file.txt'') (Path ''/a/b/d/target.txt'')
          = Inr (Path ''../d/target.txt''))
   \<and> str_of (Path ''../d/target.txt'') = ''../d/target.txt''"
proof -
  have scenario: "relative_to w (Path ''/a/b/c/file.txt'') (Path ''/a/b/d/target.txt'')
          = Inr (Path ''../d/target.txt'')"
    if f: "is_file w (Path ''/a/b/c/file.txt'')"
  proof -
    have es: "effective_source w \<lparr>root = ''/'', segs = [''a'', ''b'', ''c'', ''file.txt'']\<rparr>
                = \<lparr>root = ''/'', segs = [''a'', ''b'', ''c'']\<rparr>"
      using f by (simp add: effective_source_def Let_def absolute_def is_absolute_def parent_def
          Path_examples)
    have tp: "absolute (getcwd w) \<lparr>root = ''/'', segs = [''a'', ''b'', ''d'', ''target.txt'']\<rparr>
                = \<lparr>root = ''/'', segs = [''a'', ''b'', ''d'', ''target.txt'']\<rparr>"
      by (simp add: absolute_def is_absolute_def)
    have p1: "pure_relative_to \<lparr>root = ''/'', segs = [''a'', ''b'', ''c'']\<rparr>
                \<lparr>root = ''/'', segs = [''a'', ''b'']\<rparr> = Inr \<lparr>root = [], segs = [''c'']\<rparr>"
      by (simp add: pure_relative_to_def abs_parts_def from_parsed_parts_def Let_def)
    have p2: "pure_relative_to \<lparr>root = ''/'', segs = [''a'', ''b'', ''d'', ''target.txt'']\<rparr>
                \<lparr>root = ''/'', segs = [''a'', ''b'']\<rparr>
                = Inr \<lparr>root = [], segs = [''d'', ''target.txt'']\<rparr>"
      by (simp add: pure_relative_to_def abs_parts_def from_parsed_parts_def Let_def)
    have pa: "Path_args [''..''] = \<lparr>root = [], segs = [''..'']\<rparr>"
      using Path_args_dotdot [of 1] by simp
    show ?thesis
      by (simp add: relative_to_def Let_def Path_examples es tp find_common_prefix_eval p1 p2
          parts_def pa joinpath_def)
  qed
  have str: "str_of (Path ''../d/target.txt'') = ''../d/target.txt''"
    by (simp add: Path_examples str_of_def)
  from scenario str show ?thesis
    by (simp add: relative_to_Some)
qed

theorem relative_to_steps_witness:
  "is_absolute (getcwd example_world)
   \<and> find_common_prefix (getcwd example_world)
        [effective_source example_world (Path ''c/file.txt''),
         absolute (getcwd example_world) (Path ''/a/x/y'')] = Some (Path ''/a'')
   \<and> is_file example_world (Path ''/a/b/c/file.txt'')
   \<and> relative_to example_world (Path ''c/file.txt'') (Path ''/a/x/y'') = Inr (Path ''../../x/y'')
   \<and> relative_to example_world (Path ''/a/b/c/file.txt'') (Path ''/a/b/d/target.txt'')
        = Inr (Path ''../d/target.txt'')"
proof -
  have t: "absolute (getcwd example_world) (Path ''/a/x/y'') = \<lparr>root = ''/'', segs = [''a'', ''x'', ''y'']\<rparr>"
    by (simp add: absolute_def is_absolute_def Path_examples)
  have c: "find_common_prefix (getcwd example_world)
        [effective_source example_world (Path ''c/file.txt''),
         absolute (getcwd example_world) (Path ''/a/x/y'')] = Some (Path ''/a'')"
    by (simp add: t Path_examples example_effective_source find_common_prefix_eval)
  have f: "is_file example_world (Path ''/a/b/c/file.txt'')"
    by (simp add: Path_examples example_is_file)
  from relative_to_steps [of example_world "Path ''c/file.txt''" "Path ''/a/x/y''" "Path ''/a''"]
    c f example_world_simps(2)
  show ?thesis
    by (simp add: t Path_examples example_effective_source)
qed

text \<open>
  C7. \<^verbatim>\<open>relative_to\<close> raises \<^verbatim>\<open>ValueError('No common prefix')\<close> exactly when
  \<^verbatim>\<open>find_common_prefix\<close> of the effective source directory and the absolute target yields
  nothing; otherwise (the working directory being absolute, as \<^verbatim>\<open>os.getcwd()\<close> is) it
  returns a relative path and raises nothing.
\<close>

theorem relative_to_raises:
  "(relative_to w source_path target_path = Inl (ValueError ''No common prefix'') \<longleftrightarrow>
      find_common_prefix (getcwd w)
        [effective_source w source_path, absolute (getcwd w) target_path] = None)
   \<and> (is_absolute (getcwd w) \<and>
       find_common_prefix (getcwd w)
         [effective_source w source_path, absolute (getcwd w) target_path] \<noteq> None \<longrightarrow>
       (\<exists>r. relative_to w source_path target_path = Inr r \<and> \<not> is_absolute r))"
proof -
  have 1: "relative_to w source_path target_path = Inl (ValueError ''No common prefix'') \<longleftrightarrow>
      find_common_prefix (getcwd w)
        [effective_source w source_path, absolute (getcwd w) target_path] = None"
    using relative_to_None relative_to_message by blast
  have 2: "\<exists>r. relative_to w source_path target_path = Inr r \<and> \<not> is_absolute r"
    if "is_absolute (getcwd w)" and "find_common_prefix (getcwd w)
         [effective_source w source_path, absolute (getcwd w) target_path] \<noteq> None"
  proof -
    from that(2) obtain cp where "find_common_prefix (getcwd w)
         [effective_source w source_path, absolute (getcwd w) target_path] = Some cp" by auto
    with that(1) show ?thesis by (simp add: relative_to_Some is_absolute_def)
  qed
  from 1 2 show ?thesis by blast
qed

theorem relative_to_raises_witness:
  "find_common_prefix (getcwd example_world)
     [effective_source example_world (Path ''//srv/x''),
      absolute (getcwd example_world) (Path ''/a'')] = None
   \<and> relative_to example_world (Path ''//srv/x'') (Path ''/a'') = Inl (ValueError ''No common prefix'')
   \<and> is_absolute (getcwd example_world)
   \<and> find_common_prefix (getcwd example_world)
        [effective_source example_world (Path ''c/file.txt''),
         absolute (getcwd example_world) (Path ''/a/x/y'')] \<noteq> None
   \<and> (\<exists>r. relative_to example_world (Path ''c/file.txt'') (Path ''/a/x/y'') = Inr r \<and> \<not> is_absolute r)"
proof -
  have nf: "\<not> is_file example_world \<lparr>root = ''//'', segs = [''srv'', ''x'']\<rparr>"
    by (simp add: is_file_def os_stat_def resolve_def absolute_def is_absolute_def example_world_def)
  have es: "effective_source example_world (Path ''//srv/x'') = \<lparr>root = ''//'', segs = [''srv'', ''x'']\<rparr>"
    by (simp add: effective_source_def Let_def Path_examples absolute_def is_absolute_def nf)
  have t: "absolute (getcwd example_world) (Path ''/a'') = \<lparr>root = ''/'', segs = [''a'']\<rparr>"
    by (simp add: absolute_def is_absolute_def Path_examples)
  have n: "find_common_prefix (getcwd example_world)
     [effective_source example_world (Path ''//srv/x''),
      absolute (getcwd example_world) (Path ''/a'')] = None"
    by (simp add: es t find_common_prefix_eval)
  have t2: "absolute (getcwd example_world) (Path ''/a/x/y'') = \<lparr>root = ''/'', segs = [''a'', ''x'', ''y'']\<rparr>"
    by (simp add: absolute_def is_absolute_def Path_examples)
  have c: "find_common_prefix (getcwd example_world)
        [effective_source example_world (Path ''c/file.txt''),
         absolute (getcwd example_world) (Path ''/a/x/y'')] \<noteq> None"
    by (simp add: t2 Path_examples example_effective_source find_common_prefix_eval)
  from relative_to_raises [of example_world "Path ''//srv/x''" "Path ''/a''"] n
  have r1: "relative_to example_world (Path ''//srv/x'') (Path ''/a'') = Inl (ValueError ''No common prefix'')"
    by blast
  from relative_to_raises [of example_world "Path ''c/file.txt''" "Path ''/a/x/y''"] c example_world_simps(2)
  have r2: "\<exists>r. relative_to example_world (Path ''c/file.txt'') (Path ''/a/x/y'') = Inr r \<and> \<not> is_absolute r"
    by blast
  from n r1 c r2 example_world_simps(2) show ?thesis by blast
qed

text \<open>
  C10. When the effective source directory is the absolute target itself, \<^verbatim>\<open>relative_to\<close>
  returns the path with no segment at all, whose string is \<^verbatim>\<open>'.'\<close>; it neither raises nor
  returns an empty string.
\<close>

theorem relative_to_same_directory:
  assumes "is_absolute (getcwd w)"
    and "effective_source w source_path = absolute (getcwd w) target_path"
  shows "relative_to w source_path target_path = Inr \<lparr>root = [], segs = []\<rparr>
       \<and> map_sum id str_of (relative_to w source_path target_path) = Inr ''.''"
proof -
  let ?t = "absolute (getcwd w) target_path"
  from assms(1) have "is_absolute ?t" by (rule is_absolute_absolute)
  then have "find_common_prefix (getcwd w) [?t, ?t] = Some ?t" by (rule find_common_prefix_same)
  with assms(2) have "find_common_prefix (getcwd w)
      [effective_source w source_path, absolute (getcwd w) target_path] = Some ?t" by simp
  with assms(1) have "relative_to w source_path target_path =
      Inr \<lparr>root = [], segs = replicate (length (segs (effective_source w source_path)) - length (segs ?t)) ''..''
                 @ drop (length (segs ?t)) (segs ?t)\<rparr>"
    by (rule relative_to_Some)
  with assms(2) have "relative_to w source_path target_path = Inr \<lparr>root = [], segs = []\<rparr>"
    by simp
  then show ?thesis by (simp add: str_of_def)
qed

theorem relative_to_same_directory_witness:
  "is_absolute (getcwd example_world)
   \<and> effective_source example_world (Path ''c/file.txt'') = absolute (getcwd example_world) (Path ''c'')
   \<and> relative_to example_world (Path ''c/file.txt'') (Path ''c'') = Inr (Path ''.'')
   \<and> map_sum id str_of (relative_to example_world (Path ''c/file.txt'') (Path ''c'')) = Inr ''.''"
proof -
  have e: "effective_source example_world (Path ''c/file.txt'') = absolute (getcwd example_world) (Path ''c'')"
    by (simp add: Path_examples example_effective_source absolute_def is_absolute_def joinpath_def
        example_world_simps)
  from relative_to_same_directory [OF example_world_simps(2) e] e example_world_simps(2)
  show ?thesis by (simp add: Path_examples str_of_def)
qed

subsection \<open>Normalising a path that climbs and descends\<close>

lemma norm_step_plain:
  "s \<noteq> [] \<Longrightarrow> s \<noteq> ''.'' \<Longrightarrow> s \<noteq> ''..'' \<Longrightarrow> norm_step a ys s = ys @ [s]"
  by (simp add: norm_step_def)

lemma foldl_norm_plain: "plain xs \<Longrightarrow> foldl (norm_step a) ys xs = ys @ xs"
proof (induction xs arbitrary: ys)
  case Nil
  then show ?case by simp
next
  case (Cons x xs)
  from Cons.prems have x: "x \<noteq> []" "x \<noteq> ''.''" "x \<noteq> ''..''" and xs: "plain xs"
    by (simp_all add: plain_def)
  from x have "norm_step a ys x = ys @ [x]" by (rule norm_step_plain)
  with Cons.IH [OF xs, of "ys @ [x]"] show ?case by simp
qed

lemma plain_butlast: "plain xs \<Longrightarrow> plain (butlast xs)"
  by (auto simp: plain_def list_all_iff dest: in_set_butlastD)

lemma norm_step_dotdot:
  assumes "plain xs" "xs \<noteq> []"
  shows "norm_step a xs ''..'' = butlast xs"
proof -
  from assms have "last xs \<in> set xs" by simp
  with assms(1) have "last xs \<noteq> ''..''" by (auto simp: plain_def list_all_iff)
  with assms(2) show ?thesis by (simp add: norm_step_def)
qed

lemma foldl_norm_dotdots:
  "plain xs \<Longrightarrow> k \<le> length xs \<Longrightarrow>
   foldl (norm_step a) xs (replicate k ''..'') = take (length xs - k) xs"
proof (induction k arbitrary: xs)
  case 0
  then show ?case by simp
next
  case (Suc k)
  from Suc.prems have ne: "xs \<noteq> []" by auto
  have st: "norm_step a xs ''..'' = butlast xs"
    using Suc.prems(1) ne by (rule norm_step_dotdot)
  have pb: "plain (butlast xs)" using Suc.prems(1) by (rule plain_butlast)
  from Suc.prems have kb: "k \<le> length (butlast xs)" by simp
  have "foldl (norm_step a) (butlast xs) (replicate k ''..'')
          = take (length (butlast xs) - k) (butlast xs)"
    using pb kb by (rule Suc.IH)
  also have "\<dots> = take (length xs - Suc k) xs"
  proof -
    from ne have lt: "length xs - Suc k < length xs" by (cases xs) simp_all
    have "length (butlast xs) - k = length xs - Suc k" by simp
    then show ?thesis using lt by (simp only: take_butlast)
  qed
  finally show ?case by (simp add: st)
qed

lemma plain_prefix: "plain ys \<Longrightarrow> prefix xs ys \<Longrightarrow> plain xs"
proof -
  assume p: "plain ys" and q: "prefix xs ys"
  from q have "set xs \<subseteq> set ys" by (rule set_mono_prefix)
  with p show "plain xs" by (auto simp: plain_def list_all_iff)
qed

lemma foldl_norm_roundtrip:
  assumes "plain sa" "prefix c sa" "prefix c sb"
  shows "foldl (norm_step a) [] (sa @ replicate (length sa - length c) ''..'' @ drop (length c) sb)
       = foldl (norm_step a) [] sb"
proof -
  from assms(2) obtain e where sa: "sa = c @ e" by (rule prefixE)
  from assms(3) obtain d where sb: "sb = c @ d" by (rule prefixE)
  have pc: "plain c" using assms(1,2) by (rule plain_prefix)
  have 1: "foldl (norm_step a) [] sa = [] @ sa"
    using assms(1) by (rule foldl_norm_plain)
  have le: "length sa - length c \<le> length sa" by simp
  have 2: "foldl (norm_step a) sa (replicate (length sa - length c) ''..'')
             = take (length sa - (length sa - length c)) sa"
    using assms(1) le by (rule foldl_norm_dotdots)
  have t: "take (length sa - (length sa - length c)) sa = c"
    unfolding sa by simp
  have 3: "foldl (norm_step a) [] c = [] @ c"
    using pc by (rule foldl_norm_plain)
  have dr: "drop (length c) sb = d"
    unfolding sb by simp
  have l: "foldl (norm_step a) [] (sa @ replicate (length sa - length c) ''..'' @ d)
      = foldl (norm_step a) c d"
    by (simp only: foldl_append 1 2 t append_Nil)
  have r: "foldl (norm_step a) [] (c @ d) = foldl (norm_step a) c d"
    by (simp only: foldl_append 3 append_Nil)
  from l r show ?thesis
    unfolding dr unfolding sb by (rule trans [OF _ sym])
qed

subsection \<open>The round trip\<close>

lemma normpath_joined:
  assumes "plain (segs s)" "prefix c (segs s)" "prefix c (segs t)" "root s = root t"
  shows "normpath (joinpath s \<lparr>root = [], segs = replicate (length (segs s) - length c) ''..''
                                              @ drop (length c) (segs t)\<rparr>) = normpath t"
proof -
  have "foldl (norm_step (root s \<noteq> [])) []
          (segs s @ replicate (length (segs s) - length c) ''..'' @ drop (length c) (segs t))
        = foldl (norm_step (root s \<noteq> [])) [] (segs t)"
    using assms(1,2,3) by (rule foldl_norm_roundtrip)
  with assms(4) show ?thesis by (simp add: normpath_def joinpath_def)
qed

lemma effective_source_file:
  "is_file w (absolute (getcwd w) A) \<Longrightarrow> effective_source w A = parent (absolute (getcwd w) A)"
  by (simp add: effective_source_def Let_def)

lemma common_prefix_exists:
  assumes "is_absolute s" "is_absolute t" "root s = root t"
  shows "\<exists>cp. find_common_prefix cwd [s, t] = Some cp"
proof -
  from assms have "common_ancestor \<lparr>root = root s, segs = []\<rparr> (map (absolute cwd) [s, t])"
    by (simp add: common_ancestor_def is_ancestor_or_self_def absolute_absolute)
  then have ex: "\<exists>r. common_ancestor r (map (absolute cwd) [s, t])" by blast
  have ne: "[s, t] \<noteq> []" by simp
  from find_common_prefix_None [OF ne, of cwd] ex
  have "find_common_prefix cwd [s, t] \<noteq> None" by blast
  then show ?thesis by auto
qed

text \<open>
  C3, as amended. Let A be a file and B a path under the same root, and let the absolute
  form of A's directory hold plain names only (no \<^verbatim>\<open>'..'\<close> segment). Then \<^verbatim>\<open>relative_to(A, B)\<close>
  returns a relative path, and joining it onto A's parent directory and normalising gives
  the normalised absolute B.
\<close>

theorem relative_to_roundtrip:
  assumes "is_absolute (getcwd w)"
    and "is_file w (absolute (getcwd w) A)"
    and "root (absolute (getcwd w) A) = root (absolute (getcwd w) B)"
    and "plain (segs (parent (absolute (getcwd w) A)))"
  shows "\<exists>r. relative_to w A B = Inr r \<and> \<not> is_absolute r \<and>
           normpath (joinpath (parent (absolute (getcwd w) A)) r)
             = normpath (absolute (getcwd w) B)"
proof -
  let ?s = "parent (absolute (getcwd w) A)" and ?t = "absolute (getcwd w) B"
  have es: "effective_source w A = ?s" using assms(2) by (rule effective_source_file)
  have s: "is_absolute ?s" using assms(1) by (simp add: is_absolute_absolute is_absolute_parent)
  have t: "is_absolute ?t" using assms(1) by (rule is_absolute_absolute)
  have rt: "root ?s = root ?t" using assms(3) by (simp add: parent_def)
  from common_prefix_exists [OF s t rt]
  obtain cp where cp: "find_common_prefix (getcwd w) [?s, ?t] = Some cp" by blast
  from common_prefix_ancestors [OF s t cp]
  have ps: "prefix (segs cp) (segs ?s)" and pt: "prefix (segs cp) (segs ?t)"
    by (simp_all add: is_ancestor_or_self_def)
  let ?r = "\<lparr>root = [], segs = replicate (length (segs ?s) - length (segs cp)) ''..''
                                 @ drop (length (segs cp)) (segs ?t)\<rparr>"
  from cp have "find_common_prefix (getcwd w) [effective_source w A, ?t] = Some cp"
    by (simp only: es)
  with assms(1) have "relative_to w A B =
      Inr \<lparr>root = [], segs = replicate (length (segs (effective_source w A)) - length (segs cp)) ''..''
                                 @ drop (length (segs cp)) (segs ?t)\<rparr>"
    by (rule relative_to_Some)
  then have r: "relative_to w A B = Inr ?r" by (simp only: es)
  have n: "normpath (joinpath ?s ?r) = normpath ?t"
    using assms(4) ps pt rt by (rule normpath_joined)
  have "\<not> is_absolute ?r" by (simp add: is_absolute_def)
  with r n show ?thesis by blast
qed

lemma example_world_file2:
  "is_file example_world \<lparr>root = ''/'', segs = [''a'', ''b'', ''c'', ''..'', ''file.txt'']\<rparr>"
  by (simp add: is_file_def os_stat_def resolve_def example_world_def)

lemma Path_examples2:
  "Path ''/a/b/c/../file.txt'' = \<lparr>root = ''/'', segs = [''a'', ''b'', ''c'', ''..'', ''file.txt'']\<rparr>"
  "Path ''/a/b/d'' = \<lparr>root = ''/'', segs = [''a'', ''b'', ''d'']\<rparr>"
  "Path ''../../d'' = \<lparr>root = [], segs = [''..'', ''..'', ''d'']\<rparr>"
  "Path ''/d'' = \<lparr>root = ''/'', segs = [''d'']\<rparr>"
  by (simp_all add: Path_def splitroot_def)

lemma find_common_prefix_eval2:
  "find_common_prefix cwd [\<lparr>root = ''/'', segs = [''a'', ''b'', ''c'', ''..'']\<rparr>,
       \<lparr>root = ''/'', segs = [''a'', ''b'', ''d'']\<rparr>]
     = Some \<lparr>root = ''/'', segs = [''a'', ''b'']\<rparr>"
  by (simp add: find_common_prefix_def count_paths_def counter_update_def parents_def
      parts_def Let_def upt_rec)

theorem relative_to_roundtrip_witness:
  "is_absolute (getcwd example_world)
   \<and> is_file example_world (absolute (getcwd example_world) (Path ''c/file.txt''))
   \<and> root (absolute (getcwd example_world) (Path ''c/file.txt''))
       = root (absolute (getcwd example_world) (Path ''/a/x/y''))
   \<and> plain (segs (parent (absolute (getcwd example_world) (Path ''c/file.txt''))))
   \<and> (\<exists>r. relative_to example_world (Path ''c/file.txt'') (Path ''/a/x/y'') = Inr r \<and>
          normpath (joinpath (parent (absolute (getcwd example_world) (Path ''c/file.txt''))) r)
            = Path ''/a/x/y'')"
proof -
  have a: "absolute (getcwd example_world) (Path ''c/file.txt'')
             = \<lparr>root = ''/'', segs = [''a'', ''b'', ''c'', ''file.txt'']\<rparr>"
    by (simp add: absolute_def is_absolute_def joinpath_def example_world_simps Path_examples)
  have b: "absolute (getcwd example_world) (Path ''/a/x/y'') = \<lparr>root = ''/'', segs = [''a'', ''x'', ''y'']\<rparr>"
    by (simp add: Path_examples)
  have h2: "is_file example_world (absolute (getcwd example_world) (Path ''c/file.txt''))"
    by (simp only: a example_is_file)
  have h3: "root (absolute (getcwd example_world) (Path ''c/file.txt''))
       = root (absolute (getcwd example_world) (Path ''/a/x/y''))"
    by (simp only: a b) simp
  have h4: "plain (segs (parent (absolute (getcwd example_world) (Path ''c/file.txt''))))"
    by (simp only: a) (simp add: parent_def plain_def)
  have nb: "normpath \<lparr>root = ''/'', segs = [''a'', ''x'', ''y'']\<rparr> = Path ''/a/x/y''"
    by (simp add: normpath_def norm_step_def Path_examples)
  from relative_to_roundtrip [OF example_world_simps(2) h2 h3 h4] example_world_simps(2) h2 h3 h4
  show ?thesis by (simp only: b nb) blast
qed

text \<open>
  Without the restriction the round trip fails. \<^verbatim>\<open>/a/b/c/../file.txt\<close> is the file
  \<^verbatim>\<open>/a/b/file.txt\<close>; its directory \<^verbatim>\<open>/a/b/c/..\<close> counts as two segments below \<^verbatim>\<open>/a/b\<close>, so
  the path to \<^verbatim>\<open>/a/b/d\<close> is \<^verbatim>\<open>'../../d'\<close>, which leads from that directory to \<^verbatim>\<open>/d\<close>.
\<close>

theorem relative_to_roundtrip_counterexample:
  "is_absolute (getcwd example_world)
   \<and> is_file example_world (absolute (getcwd example_world) (Path ''/a/b/c/../file.txt''))
   \<and> root (absolute (getcwd example_world) (Path ''/a/b/c/../file.txt''))
       = root (absolute (getcwd example_world) (Path ''/a/b/d''))
   \<and> relative_to example_world (Path ''/a/b/c/../file.txt'') (Path ''/a/b/d'')
       = Inr (Path ''../../d'')
   \<and> normpath (joinpath (parent (absolute (getcwd example_world) (Path ''/a/b/c/../file.txt'')))
                 (Path ''../../d'')) = Path ''/d''
   \<and> normpath (absolute (getcwd example_world) (Path ''/a/b/d'')) = Path ''/a/b/d''
   \<and> Path ''/d'' \<noteq> Path ''/a/b/d''"
proof -
  have es: "effective_source example_world \<lparr>root = ''/'', segs = [''a'', ''b'', ''c'', ''..'', ''file.txt'']\<rparr>
              = \<lparr>root = ''/'', segs = [''a'', ''b'', ''c'', ''..'']\<rparr>"
    by (simp add: effective_source_def Let_def example_world_file2 parent_def)
  have p1: "pure_relative_to \<lparr>root = ''/'', segs = [''a'', ''b'', ''c'', ''..'']\<rparr>
              \<lparr>root = ''/'', segs = [''a'', ''b'']\<rparr> = Inr \<lparr>root = [], segs = [''c'', ''..'']\<rparr>"
    by (simp add: pure_relative_to_def abs_parts_def from_parsed_parts_def Let_def)
  have p2: "pure_relative_to \<lparr>root = ''/'', segs = [''a'', ''b'', ''d'']\<rparr>
              \<lparr>root = ''/'', segs = [''a'', ''b'']\<rparr> = Inr \<lparr>root = [], segs = [''d'']\<rparr>"
    by (simp add: pure_relative_to_def abs_parts_def from_parsed_parts_def Let_def)
  have pa: "Path_args [''..'', ''..''] = \<lparr>root = [], segs = [''..'', ''..'']\<rparr>"
    using Path_args_dotdot [of 2] by (simp add: numeral_2_eq_2)
  have rel: "relative_to example_world (Path ''/a/b/c/../file.txt'') (Path ''/a/b/d'')
       = Inr (Path ''../../d'')"
    by (simp add: relative_to_def Let_def Path_examples2 es find_common_prefix_eval2 p1 p2
        parts_def pa joinpath_def)
  have n1: "normpath (joinpath (parent (absolute (getcwd example_world) (Path ''/a/b/c/../file.txt'')))
                 (Path ''../../d'')) = Path ''/d''"
    by (simp add: Path_examples2 parent_def joinpath_def normpath_def norm_step_def)
  have n2: "normpath (absolute (getcwd example_world) (Path ''/a/b/d'')) = Path ''/a/b/d''"
    by (simp add: Path_examples2 normpath_def norm_step_def)
  have f: "is_file example_world (absolute (getcwd example_world) (Path ''/a/b/c/../file.txt''))"
    by (simp add: Path_examples2 example_world_file2)
  have ne: "Path ''/d'' \<noteq> Path ''/a/b/d''" by (simp add: Path_examples2)
  from example_world_simps(2) f rel n1 n2 ne show ?thesis by (simp add: Path_examples2)
qed

section \<open>Properties of the walker\<close>











subsection \<open>Every directory is walked\<close>






lemma example_walk_top_down:
  "walk \<lparr>root = ''/'', segs = []\<rparr> example_tree \<lparr>root = ''/'', segs = []\<rparr> True =
     Inr [(\<lparr>root = ''/'', segs = []\<rparr>, [\<lparr>root = ''/'', segs = [''b'']\<rparr>], [\<lparr>root = ''/'', segs = [''a'']\<rparr>]),
          (\<lparr>root = ''/'', segs = [''b'']\<rparr>, [\<lparr>root = ''/'', segs = [''b'', ''x'']\<rparr>], []),
          (\<lparr>root = ''/'', segs = [''b'', ''x'']\<rparr>, [], [])]"
  by (simp add: walk_def example_tree_def fs_of_def absolute_def is_absolute_def Let_def
      make_child_def parts_def)



section \<open>Lemmas about the filesystem and write-if-changed\<close>

subsection \<open>Lookup, reading and writing\<close>

lemma print_fields:
  "fs (print line w) = fs w" "getcwd (print line w) = getcwd w"
  "written (print line w) = written w"
  by (simp_all add: print_def)

lemma os_stat_print: "os_stat (print line w) p = os_stat w p"
  by (simp add: os_stat_def resolve_def print_fields split: sum.splits)

lemma namei_step_Dir:
  "namei f cur (s # ss) = Inr l \<Longrightarrow>
   f cur = Some Dir \<and> namei f (if s = ''..'' then butlast cur else cur @ [s]) ss = Inr l"
  by (cases "f cur") (auto split: entry.splits)

lemma namei_update_file:
  "namei f cur ss = Inr l \<Longrightarrow> f l \<noteq> Some Dir \<Longrightarrow> namei (f(l \<mapsto> File c)) cur ss = Inr l"
proof (induction ss arbitrary: cur)
  case Nil
  then show ?case by simp
next
  case (Cons s ss)
  from namei_step_Dir [OF Cons.prems(1)]
  have d: "f cur = Some Dir"
    and n: "namei f (if s = ''..'' then butlast cur else cur @ [s]) ss = Inr l" by simp_all
  from d Cons.prems(2) have "cur \<noteq> l" by auto
  with d have d': "(f(l \<mapsto> File c)) cur = Some Dir" by simp
  from Cons.IH [OF n Cons.prems(2)]
  have i: "namei (f(l \<mapsto> File c)) (if s = ''..'' then butlast cur else cur @ [s]) ss = Inr l" .
  have "namei (f(l \<mapsto> File c)) cur (s # ss)
          = namei (f(l \<mapsto> File c)) (if s = ''..'' then butlast cur else cur @ [s]) ss"
    by (simp only: namei.simps d' option.case entry.case)
  with i show ?case by (simp only:)
qed

lemma open_write_Inr:
  assumes "open_write c p w = Inr w'"
  shows "os_stat w' p = Inr (File c) \<and> getcwd w' = getcwd w \<and>
         written w' = written w @ [(p, c)] \<and> stdout w' = stdout w"
proof -
  from assms obtain l where r: "resolve w p = Inr l" and nd: "fs w l \<noteq> Some Dir"
    and w': "w' = w\<lparr>fs := (fs w)(l \<mapsto> File c), written := written w @ [(p, c)]\<rparr>"
    by (auto simp: open_write_def split: sum.splits option.splits entry.splits)
  from r have "namei (fs w) [] (segs (absolute (getcwd w) p)) = Inr l" by (simp add: resolve_def)
  from namei_update_file [OF this nd]
  have "resolve w' p = Inr l" by (simp add: resolve_def w')
  then have "os_stat w' p = Inr (File c)" by (simp add: os_stat_def w')
  then show ?thesis by (simp add: w')
qed



lemma os_mkdir_frame:
  "os_mkdir w p = Inr w' \<Longrightarrow>
   getcwd w' = getcwd w \<and> written w' = written w \<and> stdout w' = stdout w"
  by (auto simp: os_mkdir_def split: sum.splits option.splits)

lemma mkdir_frame:
  "mkdir p mk_parents exist_ok w = Inr w' \<Longrightarrow>
   getcwd w' = getcwd w \<and> written w' = written w \<and> stdout w' = stdout w"
proof (induction p mk_parents exist_ok w arbitrary: w' rule: mkdir.induct)
  case (1 p mk_parents exist_ok w)
  show ?case
  proof (cases "os_mkdir w p")
    case (Inr w1)
    with "1.prems" have "w' = w1" by (simp add: mkdir.simps [of p mk_parents exist_ok w])
    with Inr show ?thesis by (simp add: os_mkdir_frame)
  next
    case (Inl e)
    show ?thesis
    proof (cases "e = FileNotFoundError")
      case False
      with Inl "1.prems" have "w' = w"
        by (simp add: mkdir.simps [of p mk_parents exist_ok w] split: if_splits)
      then show ?thesis by simp
    next
      case True
      with Inl "1.prems" have c: "\<not> (\<not> mk_parents \<or> parent p = p)"
        by (auto simp: mkdir.simps [of p mk_parents exist_ok w] split: if_splits)
      with Inl True "1.prems" obtain w1 where w1: "mkdir (parent p) True True w = Inr w1"
        and w2: "mkdir p False exist_ok w1 = Inr w'"
        by (auto simp: mkdir.simps [of p mk_parents exist_ok w] split: if_splits sum.splits)
      from "1.IH"(1) [OF Inl True c w1]
      have f1: "getcwd w1 = getcwd w \<and> written w1 = written w \<and> stdout w1 = stdout w" .
      from "1.IH"(2) [OF Inl True c w1 w2]
      have "getcwd w' = getcwd w1 \<and> written w' = written w1 \<and> stdout w' = stdout w1" .
      with f1 show ?thesis by simp
    qed
  qed
qed


lemma write_Inr_cases:
  assumes "write_file contents p verbose w = Inr (r, w')"
  shows "(r = PyBool False \<and> exists w p \<and> open_read w p = Inr contents \<and>
          fs w' = fs w \<and> written w' = written w \<and> getcwd w' = getcwd w)
       \<or> (r = PyBool True \<and> exists w p \<and> open_read w p \<noteq> Inr contents \<and>
          os_stat w' p = Inr (File contents) \<and> written w' = written w @ [(p, contents)] \<and>
          getcwd w' = getcwd w)
       \<or> (r = PyNone \<and> \<not> exists w p \<and>
          os_stat w' p = Inr (File contents) \<and> written w' = written w @ [(p, contents)] \<and>
          getcwd w' = getcwd w)"
proof (cases "exists w p")
  case True
  show ?thesis
  proof (cases "open_read w p")
    case (Inl e)
    with True assms show ?thesis by (simp add: write_file_def)
  next
    case (Inr old)
    show ?thesis
    proof (cases "old = contents")
      case same: True
      with True Inr assms show ?thesis
        by (auto simp: write_file_def print_fields split: if_splits)
    next
      case False
      with True Inr assms obtain w1 where ow: "open_write contents p w = Inr w1"
        and w': "w' = (if verbose then print (''rewrote: '' @ str_of p) w1 else w1)"
        and r: "r = PyBool True"
        by (auto simp: write_file_def split: sum.splits)
      from open_write_Inr [OF ow] w' have "os_stat w' p = Inr (File contents)"
        "written w' = written w @ [(p, contents)]" "getcwd w' = getcwd w"
        by (simp_all add: os_stat_print print_fields)
      with True Inr False r show ?thesis by simp
    qed
  qed
next
  case False
  with assms obtain w1 w2 where
    mk: "(if \<not> exists w (parent p) then mkdir (parent p) True False w else Inr w) = Inr w1"
    and ow: "open_write contents p w1 = Inr w2"
    and w': "w' = (if verbose then print (''wrote: '' @ str_of p) w2 else w2)"
    and r: "r = PyNone"
    by (auto simp: write_file_def split: sum.splits)
  from mk have f1: "getcwd w1 = getcwd w \<and> written w1 = written w"
    by (auto split: if_splits dest: mkdir_frame)
  from open_write_Inr [OF ow] w' f1 have "os_stat w' p = Inr (File contents)"
    "written w' = written w @ [(p, contents)]" "getcwd w' = getcwd w"
    by (simp_all add: os_stat_print print_fields)
  with False r show ?thesis by simp
qed



subsection \<open>Lookup of plain paths in a well-formed filesystem\<close>

lemma namei_plain_ok:
  "plain ss \<Longrightarrow> (\<forall>k<length ss. f (cur @ take k ss) = Some Dir) \<Longrightarrow>
   namei f cur ss = Inr (cur @ ss)"
proof (induction ss arbitrary: cur)
  case Nil
  then show ?case by simp
next
  case (Cons s ss)
  from Cons.prems(1) have s: "s \<noteq> ''..''" and p: "plain ss" by (simp_all add: plain_def)
  from Cons.prems(2) have d: "f cur = Some Dir" by force
  have "\<forall>k<length ss. f ((cur @ [s]) @ take k ss) = Some Dir"
  proof (intro allI impI)
    fix k assume "k < length ss"
    then have "Suc k < length (s # ss)" by simp
    with Cons.prems(2) have "f (cur @ take (Suc k) (s # ss)) = Some Dir" by blast
    then show "f ((cur @ [s]) @ take k ss) = Some Dir" by simp
  qed
  with p have "namei f (cur @ [s]) ss = Inr ((cur @ [s]) @ ss)" by (rule Cons.IH)
  with s d show ?case by simp
qed

lemma namei_plain_Inr:
  "plain ss \<Longrightarrow> namei f cur ss = Inr l \<Longrightarrow>
   l = cur @ ss \<and> (\<forall>k<length ss. f (cur @ take k ss) = Some Dir)"
proof (induction ss arbitrary: cur)
  case Nil
  then show ?case by simp
next
  case (Cons s ss)
  from Cons.prems(1) have s: "s \<noteq> ''..''" and p: "plain ss" by (simp_all add: plain_def)
  from namei_step_Dir [OF Cons.prems(2)] s
  have d: "f cur = Some Dir" and n: "namei f (cur @ [s]) ss = Inr l" by simp_all
  from Cons.IH [OF p n]
  have l: "l = (cur @ [s]) @ ss" and a: "\<forall>k<length ss. f ((cur @ [s]) @ take k ss) = Some Dir"
    by simp_all
  have "f (cur @ take k (s # ss)) = Some Dir" if "k < length (s # ss)" for k
  proof (cases k)
    case 0
    with d show ?thesis by simp
  next
    case (Suc k')
    with that have "k' < length ss" by simp
    with a have "f ((cur @ [s]) @ take k' ss) = Some Dir" by blast
    with Suc show ?thesis by simp
  qed
  with l show ?case by simp
qed

lemma namei_plain_Inl:
  "plain ss \<Longrightarrow> namei f cur ss = Inl e \<Longrightarrow>
   (\<forall>k<length ss. \<forall>c. f (cur @ take k ss) \<noteq> Some (File c)) \<Longrightarrow> e = FileNotFoundError"
proof (induction ss arbitrary: cur)
  case Nil
  then show ?case by simp
next
  case (Cons s ss)
  from Cons.prems(1) have s: "s \<noteq> ''..''" and p: "plain ss" by (simp_all add: plain_def)
  from Cons.prems(3) have nf: "\<forall>c. f cur \<noteq> Some (File c)" by force
  show ?case
  proof (cases "f cur")
    case None
    with Cons.prems(2) show ?thesis by simp
  next
    case (Some en)
    with nf have d: "f cur = Some Dir" by (cases en) auto
    with Cons.prems(2) s have n: "namei f (cur @ [s]) ss = Inl e" by simp
    have "\<forall>k<length ss. \<forall>c. f ((cur @ [s]) @ take k ss) \<noteq> Some (File c)"
    proof (intro allI impI)
      fix k c assume "k < length ss"
      then have "Suc k < length (s # ss)" by simp
      with Cons.prems(3) have "f (cur @ take (Suc k) (s # ss)) \<noteq> Some (File c)" by blast
      then show "f ((cur @ [s]) @ take k ss) \<noteq> Some (File c)" by simp
    qed
    with p n show ?thesis by (rule Cons.IH)
  qed
qed

lemma wf_fs_prefix:
  "wf_fs f \<Longrightarrow> f l \<noteq> None \<Longrightarrow> k < length l \<Longrightarrow> f (take k l) = Some Dir"
proof (induction l rule: rev_induct)
  case Nil
  then show ?case by simp
next
  case (snoc x xs)
  from snoc.prems(1,2) have d: "f xs = Some Dir" by (auto simp: wf_fs_def)
  show ?case
  proof (cases "k = length xs")
    case True
    with d show ?thesis by simp
  next
    case False
    with snoc.prems(3) have k: "k < length xs" by simp
    from d have "f xs \<noteq> None" by simp
    with snoc.prems(1) have "f (take k xs) = Some Dir" using k by (rule snoc.IH)
    with k show ?thesis by simp
  qed
qed

lemma wf_fs_above:
  assumes "wf_fs f" "l \<noteq> []" "f (butlast l) = Some Dir" "k < length l"
  shows "f (take k l) = Some Dir"
proof (cases "k = length l - 1")
  case True
  have "take k l = butlast l" unfolding True by (rule butlast_conv_take [symmetric])
  with assms(3) show ?thesis by (simp only:)
next
  case False
  with assms(4) have k: "k < length (butlast l)" by simp
  from assms(3) have "f (butlast l) \<noteq> None" by simp
  with assms(1) have "f (take k (butlast l)) = Some Dir" using k by (rule wf_fs_prefix)
  with assms(4) show ?thesis by (simp add: take_butlast)
qed

lemma wf_fs_update_dir:
  assumes "wf_fs f" "l \<noteq> []" "f (butlast l) = Some Dir" "f l = None"
  shows "wf_fs (f(l \<mapsto> Dir))"
proof -
  from assms(1,2) have r: "(f(l \<mapsto> Dir)) [] = Some Dir" by (simp add: wf_fs_def)
  have "(f(l \<mapsto> Dir)) m = Some Dir" if "(f(l \<mapsto> Dir)) (m @ [s]) \<noteq> None" for m s
  proof (cases "m @ [s] = l")
    case True
    then have "butlast l = m" by auto
    with assms(3) have "f m = Some Dir" by simp
    then show ?thesis by simp
  next
    case False
    with that have "f (m @ [s]) \<noteq> None" by simp
    with assms(1) have "f m = Some Dir" by (auto simp: wf_fs_def)
    then show ?thesis by simp
  qed
  with r show ?thesis by (simp add: wf_fs_def)
qed


subsection \<open>Making directories in a well-formed world\<close>

lemma segs_absolute_parent:
  "segs p \<noteq> [] \<Longrightarrow> segs (absolute cwd (parent p)) = butlast (segs (absolute cwd p))"
  by (simp add: absolute_def parent_def joinpath_def is_absolute_def butlast_append)

lemma butlast_shorter: "xs \<noteq> [] \<Longrightarrow> length (butlast xs) < length xs"
  by (cases xs rule: rev_cases) simp_all

lemma parent_neq: "segs p \<noteq> [] \<Longrightarrow> parent p \<noteq> p"
proof
  assume ne: "segs p \<noteq> []" and "parent p = p"
  then have "segs (parent p) = segs p" by simp
  then have "butlast (segs p) = segs p" by (simp add: parent_def)
  then have "length (butlast (segs p)) = length (segs p)" by (rule arg_cong)
  with butlast_shorter [OF ne] show False by (simp only: less_irrefl)
qed

lemma resolve_ok:
  assumes "wf_fs (fs w)" "plain (segs (absolute (getcwd w) q))"
    and "segs (absolute (getcwd w) q) \<noteq> []"
    and "fs w (butlast (segs (absolute (getcwd w) q))) = Some Dir"
  shows "resolve w q = Inr (segs (absolute (getcwd w) q))"
proof -
  let ?sq = "segs (absolute (getcwd w) q)"
  have "\<forall>k<length ?sq. fs w ([] @ take k ?sq) = Some Dir"
    using wf_fs_above [OF assms(1,3,4)] by simp
  with assms(2) have "namei (fs w) [] ?sq = Inr ([] @ ?sq)" by (rule namei_plain_ok)
  then show ?thesis by (simp add: resolve_def)
qed

lemma resolve_exists:
  assumes "wf_fs (fs w)" "plain (segs (absolute (getcwd w) q))"
    and "fs w (segs (absolute (getcwd w) q)) \<noteq> None"
  shows "resolve w q = Inr (segs (absolute (getcwd w) q))"
proof -
  let ?sq = "segs (absolute (getcwd w) q)"
  have "\<forall>k<length ?sq. fs w ([] @ take k ?sq) = Some Dir"
    using wf_fs_prefix [OF assms(1,3)] by simp
  with assms(2) have "namei (fs w) [] ?sq = Inr ([] @ ?sq)" by (rule namei_plain_ok)
  then show ?thesis by (simp add: resolve_def)
qed

lemma resolve_plain_Inr:
  assumes "plain (segs (absolute (getcwd w) q))" "resolve w q = Inr l"
  shows "l = segs (absolute (getcwd w) q)
       \<and> (\<forall>k<length (segs (absolute (getcwd w) q)). fs w (take k (segs (absolute (getcwd w) q))) = Some Dir)"
proof -
  from assms(2) have "namei (fs w) [] (segs (absolute (getcwd w) q)) = Inr l"
    by (simp add: resolve_def)
  from namei_plain_Inr [OF assms(1) this] show ?thesis by simp
qed

lemma resolve_fails:
  assumes "plain (segs (absolute (getcwd w) q))"
    and "segs (absolute (getcwd w) q) \<noteq> []"
    and "fs w (butlast (segs (absolute (getcwd w) q))) \<noteq> Some Dir"
    and "\<forall>k<length (segs (absolute (getcwd w) q)). \<forall>c.
           fs w (take k (segs (absolute (getcwd w) q))) \<noteq> Some (File c)"
  shows "resolve w q = Inl FileNotFoundError"
proof (cases "resolve w q")
  case (Inr l)
  let ?sq = "segs (absolute (getcwd w) q)"
  from resolve_plain_Inr [OF assms(1) Inr]
  have a: "\<forall>k<length ?sq. fs w (take k ?sq) = Some Dir" by simp
  from assms(2) have "length ?sq - 1 < length ?sq" by (cases ?sq) simp_all
  with a have "fs w (take (length ?sq - 1) ?sq) = Some Dir" by blast
  then have "fs w (butlast ?sq) = Some Dir" by (simp only: butlast_conv_take)
  with assms(3) show ?thesis by simp
next
  case (Inl e)
  then have n: "namei (fs w) [] (segs (absolute (getcwd w) q)) = Inl e" by (simp add: resolve_def)
  from assms(4) have "\<forall>k<length (segs (absolute (getcwd w) q)). \<forall>c.
           fs w ([] @ take k (segs (absolute (getcwd w) q))) \<noteq> Some (File c)" by simp
  with assms(1) n have "e = FileNotFoundError" by (rule namei_plain_Inl)
  with Inl show ?thesis by simp
qed

lemma not_exists_None:
  assumes "wf_fs (fs w)" "plain (segs (absolute (getcwd w) q))" "\<not> exists w q"
  shows "fs w (segs (absolute (getcwd w) q)) = None"
proof (rule ccontr)
  assume ne: "fs w (segs (absolute (getcwd w) q)) \<noteq> None"
  with assms(1,2) have "resolve w q = Inr (segs (absolute (getcwd w) q))" by (rule resolve_exists)
  with ne have "exists w q" by (auto simp: exists_def os_stat_def)
  with assms(3) show False by simp
qed

lemma none_nonempty:
  assumes "wf_world w" "fs w (segs (absolute (getcwd w) q)) = None"
  shows "segs q \<noteq> []"
proof
  assume e: "segs q = []"
  have "segs (absolute (getcwd w) q) = [] \<or> segs (absolute (getcwd w) q) = segs (getcwd w)"
    using e by (simp add: absolute_def joinpath_def)
  with assms(1) have "fs w (segs (absolute (getcwd w) q)) = Some Dir"
    by (auto simp: wf_world_def wf_fs_def)
  with assms(2) show False by simp
qed

lemma made_dirs_refl: "wf_fs (fs w) \<Longrightarrow> fs w sq = Some Dir \<Longrightarrow> made_dirs w sq w"
  by (simp add: made_dirs_def)

lemma made_dirs_trans:
  assumes "made_dirs w (butlast sq) w1" "made_dirs w1 sq w2"
  shows "made_dirs w sq w2"
proof -
  have pre: "prefix l sq" if "prefix l (butlast sq)" for l
    using that prefixeq_butlast [of sq] by (rule prefix_order.trans)
  have old: "fs w2 l = fs w l" if "fs w l \<noteq> None" for l
  proof -
    from assms(1) that have 1: "fs w1 l = fs w l" by (simp add: made_dirs_def)
    with that have "fs w1 l \<noteq> None" by simp
    with assms(2) have "fs w2 l = fs w1 l" by (simp add: made_dirs_def)
    with 1 show ?thesis by simp
  qed
  have new: "fs w2 l = Some Dir \<and> prefix l sq" if "fs w l = None" "fs w2 l \<noteq> None" for l
  proof (cases "fs w1 l = None")
    case True
    with assms(2) that(2) show ?thesis by (simp add: made_dirs_def)
  next
    case False
    with assms(1) that(1) have 1: "fs w1 l = Some Dir \<and> prefix l (butlast sq)"
      by (simp add: made_dirs_def)
    from False assms(2) have "fs w2 l = fs w1 l" by (simp add: made_dirs_def)
    with 1 pre show ?thesis by simp
  qed
  from assms old new show ?thesis by (simp add: made_dirs_def)
qed

lemma os_mkdir_ok:
  assumes "wf_fs (fs w)" "plain (segs (absolute (getcwd w) q))"
    and "segs (absolute (getcwd w) q) \<noteq> []"
    and "fs w (butlast (segs (absolute (getcwd w) q))) = Some Dir"
    and "fs w (segs (absolute (getcwd w) q)) = None"
  shows "\<exists>w'. os_mkdir w q = Inr w' \<and> made_dirs w (segs (absolute (getcwd w) q)) w'"
proof -
  let ?sq = "segs (absolute (getcwd w) q)"
  let ?w' = "w\<lparr>fs := (fs w)(?sq \<mapsto> Dir)\<rparr>"
  from assms(1-4) have r: "resolve w q = Inr ?sq" by (rule resolve_ok)
  with assms(5) have m: "os_mkdir w q = Inr ?w'" by (simp add: os_mkdir_def)
  from assms(1,3,4,5) have wf: "wf_fs ((fs w)(?sq \<mapsto> Dir))" by (rule wf_fs_update_dir)
  have "made_dirs w ?sq ?w'"
    using wf assms(5) by (auto simp: made_dirs_def)
  with m show ?thesis by blast
qed

lemma mkdir_step:
  assumes wf: "wf_world w"
    and pl: "plain (segs (absolute (getcwd w) q))"
    and nf: "\<forall>k\<le>length (segs (absolute (getcwd w) q)). \<forall>c.
               fs w (take k (segs (absolute (getcwd w) q))) \<noteq> Some (File c)"
    and none: "fs w (segs (absolute (getcwd w) q)) = None"
    and par: "\<exists>w1. mkdir (parent q) True True w = Inr w1
                \<and> made_dirs w (butlast (segs (absolute (getcwd w) q))) w1"
  shows "\<exists>w'. mkdir q True exist_ok w = Inr w' \<and> made_dirs w (segs (absolute (getcwd w) q)) w'"
proof -
  let ?sq = "segs (absolute (getcwd w) q)"
  from wf have wff: "wf_fs (fs w)" by (simp add: wf_world_def)
  from wf none have sq: "segs q \<noteq> []" by (rule none_nonempty)
  from wff none have ne: "?sq \<noteq> []" by (auto simp: wf_fs_def)
  show ?thesis
  proof (cases "fs w (butlast ?sq) = Some Dir")
    case True
    from os_mkdir_ok [OF wff pl ne True none]
    obtain w' where m: "os_mkdir w q = Inr w'" and md: "made_dirs w ?sq w'" by blast
    from m have "mkdir q True exist_ok w = Inr w'" by (simp add: mkdir.simps [of q True exist_ok w])
    with md show ?thesis by blast
  next
    case False
    from nf have "\<forall>k<length ?sq. \<forall>c. fs w (take k ?sq) \<noteq> Some (File c)" by simp
    with pl ne False have "resolve w q = Inl FileNotFoundError" by (rule resolve_fails)
    then have om: "os_mkdir w q = Inl FileNotFoundError" by (simp add: os_mkdir_def)
    from par obtain w1 where p1: "mkdir (parent q) True True w = Inr w1"
      and md1: "made_dirs w (butlast ?sq) w1" by blast
    from md1 have cw: "getcwd w1 = getcwd w" and wf1: "wf_fs (fs w1)"
      and d1: "fs w1 (butlast ?sq) = Some Dir"
      and new1: "\<forall>l. fs w l = None \<longrightarrow> fs w1 l \<noteq> None \<longrightarrow> fs w1 l = Some Dir \<and> prefix l (butlast ?sq)"
      by (simp_all add: made_dirs_def)
    have n1: "fs w1 ?sq = None"
    proof (rule ccontr)
      assume "fs w1 ?sq \<noteq> None"
      with new1 none have "prefix ?sq (butlast ?sq)" by blast
      then have "length ?sq \<le> length (butlast ?sq)" by (rule prefix_length_le)
      with butlast_shorter [OF ne] show False by (simp del: length_butlast)
    qed
    have "\<exists>w'. os_mkdir w1 q = Inr w' \<and> made_dirs w1 (segs (absolute (getcwd w1) q)) w'"
    proof (rule os_mkdir_ok)
      show "wf_fs (fs w1)" by (rule wf1)
      show "plain (segs (absolute (getcwd w1) q))" using pl by (simp add: cw)
      show "segs (absolute (getcwd w1) q) \<noteq> []" using ne by (simp add: cw)
      show "fs w1 (butlast (segs (absolute (getcwd w1) q))) = Some Dir" using d1 by (simp add: cw)
      show "fs w1 (segs (absolute (getcwd w1) q)) = None" using n1 by (simp add: cw)
    qed
    then obtain w2 where m2: "os_mkdir w1 q = Inr w2" and md2: "made_dirs w1 ?sq w2"
      by (auto simp only: cw)
    from m2 have "mkdir q False exist_ok w1 = Inr w2"
      by (simp add: mkdir.simps [of q False exist_ok w1])
    with om p1 parent_neq [OF sq] have "mkdir q True exist_ok w = Inr w2"
      by (simp add: mkdir.simps [of q True exist_ok w])
    moreover from md1 md2 have "made_dirs w ?sq w2" by (rule made_dirs_trans)
    ultimately show ?thesis by blast
  qed
qed

lemma mkdir_parents_ok:
  assumes "wf_world w"
    and "plain (segs (absolute (getcwd w) q))"
    and "\<forall>k\<le>length (segs (absolute (getcwd w) q)). \<forall>c.
               fs w (take k (segs (absolute (getcwd w) q))) \<noteq> Some (File c)"
  shows "\<exists>w'. mkdir q True True w = Inr w' \<and> made_dirs w (segs (absolute (getcwd w) q)) w'"
  using assms
proof (induction n \<equiv> "length (segs q)" arbitrary: q rule: less_induct)
  case less
  let ?sq = "segs (absolute (getcwd w) q)"
  from less.prems(1) have wff: "wf_fs (fs w)" by (simp add: wf_world_def)
  show ?case
  proof (cases "fs w ?sq = None")
    case False
    then obtain en where en: "fs w ?sq = Some en" by auto
    from less.prems(3) have "\<forall>c. fs w (take (length ?sq) ?sq) \<noteq> Some (File c)" by blast
    with en have d: "fs w ?sq = Some Dir" by (cases en) auto
    from wff less.prems(2) False have r: "resolve w q = Inr ?sq" by (rule resolve_exists)
    with d have om: "os_mkdir w q = Inl FileExistsError" by (simp add: os_mkdir_def)
    from r d have "is_dir w q" by (simp add: is_dir_def os_stat_def)
    with om have "mkdir q True True w = Inr w" by (simp add: mkdir.simps [of q True True w])
    moreover from wff d have "made_dirs w ?sq w" by (rule made_dirs_refl)
    ultimately show ?thesis by blast
  next
    case True
    from less.prems(1) True have sq: "segs q \<noteq> []" by (rule none_nonempty)
    then have sp: "segs (absolute (getcwd w) (parent q)) = butlast ?sq"
      by (rule segs_absolute_parent)
    from sq have lt: "length (segs (parent q)) < length (segs q)"
      by (cases "segs q" rule: rev_cases) (simp_all add: parent_def)
    have plp: "plain (segs (absolute (getcwd w) (parent q)))"
      using less.prems(2) by (simp only: sp) (rule plain_butlast)
    have nfp: "\<forall>k\<le>length (segs (absolute (getcwd w) (parent q))). \<forall>c.
               fs w (take k (segs (absolute (getcwd w) (parent q)))) \<noteq> Some (File c)"
    proof (intro allI impI)
      fix k c assume "k \<le> length (segs (absolute (getcwd w) (parent q)))"
      then have k: "k \<le> length (butlast ?sq)" by (simp only: sp)
      then have "k \<le> length ?sq" by simp
      with less.prems(3) have "fs w (take k ?sq) \<noteq> Some (File c)" by blast
      moreover from k have "take k (butlast ?sq) = take k ?sq"
        by (cases "k = length (butlast ?sq)") (simp_all add: butlast_conv_take take_butlast)
      ultimately show "fs w (take k (segs (absolute (getcwd w) (parent q)))) \<noteq> Some (File c)"
        by (simp add: sp)
    qed
    from less.hyps [OF lt less.prems(1) plp nfp]
    have "\<exists>w1. mkdir (parent q) True True w = Inr w1 \<and> made_dirs w (butlast ?sq) w1"
      by (simp only: sp)
    with less.prems True show ?thesis by (intro mkdir_step)
  qed
qed

subsection \<open>Writing a file that does not exist yet\<close>

lemma namei_append:
  "namei f cur (xs @ ys) = (case namei f cur xs of Inl e \<Rightarrow> Inl e | Inr m \<Rightarrow> namei f m ys)"
proof (induction xs arbitrary: cur)
  case Nil
  show ?case by simp
next
  case (Cons x xs)
  show ?case
  proof (cases "f cur")
    case None
    then show ?thesis by simp
  next
    case (Some en)
    then show ?thesis by (cases en) (simp_all add: Cons)
  qed
qed

lemma absolute_parents:
  assumes "q \<in> set (parents p)"
  shows "\<exists>ys. ys \<noteq> [] \<and> segs (absolute cwd p) = segs (absolute cwd q) @ ys"
proof -
  from assms obtain k where k: "k < length (segs p)" and r: "root q = root p"
    and s: "segs q = take k (segs p)" by (auto simp: in_parents_iff)
  from k have d: "drop k (segs p) \<noteq> []" by simp
  have "segs (absolute cwd p) = segs (absolute cwd q) @ drop k (segs p)"
    using r s by (simp add: absolute_def is_absolute_def joinpath_def)
  with d show ?thesis by blast
qed

lemma stat_parents_dir:
  assumes "os_stat w p = Inr en" "q \<in> set (parents p)"
  shows "is_dir w q"
proof -
  from assms(1) obtain l where "resolve w p = Inr l"
    by (auto simp: os_stat_def split: sum.splits)
  then have n: "namei (fs w) [] (segs (absolute (getcwd w) p)) = Inr l" by (simp add: resolve_def)
  from absolute_parents [OF assms(2), of "getcwd w"] obtain y ys where
    sp: "segs (absolute (getcwd w) p) = segs (absolute (getcwd w) q) @ y # ys"
    by (metis list.exhaust)
  from n obtain m where m: "namei (fs w) [] (segs (absolute (getcwd w) q)) = Inr m"
    and rest: "namei (fs w) m (y # ys) = Inr l"
    by (auto simp only: sp namei_append split: sum.splits)
  from namei_step_Dir [OF rest] have "fs w m = Some Dir" by simp
  with m show ?thesis by (simp add: is_dir_def os_stat_def resolve_def)
qed

lemma file_at_location:
  assumes "wf_fs (fs w)" "plain (segs (absolute (getcwd w) q))"
    and "fs w (segs (absolute (getcwd w) q)) = Some (File c)"
  shows "is_file w q"
proof -
  from assms(3) have "fs w (segs (absolute (getcwd w) q)) \<noteq> None" by simp
  with assms(1,2) have "resolve w q = Inr (segs (absolute (getcwd w) q))" by (rule resolve_exists)
  with assms(3) show ?thesis by (simp add: is_file_def os_stat_def)
qed

lemma plain_take: "plain xs \<Longrightarrow> plain (take k xs)"
proof -
  assume "plain xs"
  moreover have "prefix (take k xs) xs" by (rule take_is_prefix)
  ultimately show ?thesis by (rule plain_prefix)
qed

lemma no_file_above:
  assumes wf: "wf_world w" and pl: "plain (segs (absolute (getcwd w) p))"
    and nf: "\<forall>q \<in> set (parents p). \<not> is_file w q"
    and k: "k < length (segs (absolute (getcwd w) p))"
  shows "fs w (take k (segs (absolute (getcwd w) p))) \<noteq> Some (File c)"
proof
  let ?C = "segs (getcwd w)"
  assume f: "fs w (take k (segs (absolute (getcwd w) p))) = Some (File c)"
  from wf have wff: "wf_fs (fs w)" and cd: "fs w ?C = Some Dir" by (simp_all add: wf_world_def)
  have "\<exists>j<length (segs p). take k (segs (absolute (getcwd w) p))
          = segs (absolute (getcwd w) (p\<lparr>segs := take j (segs p)\<rparr>))"
  proof (cases "is_absolute p")
    case True
    with k show ?thesis by (auto simp: absolute_def is_absolute_def)
  next
    case False
    then have sp: "segs (absolute (getcwd w) p) = ?C @ segs p"
      by (simp add: absolute_def joinpath_def is_absolute_def)
    have "\<not> k \<le> length ?C"
    proof
      assume le: "k \<le> length ?C"
      have "fs w (take k ?C) = Some Dir"
      proof (cases "k = length ?C")
        case True
        with cd show ?thesis by simp
      next
        case False
        with le have "k < length ?C" by simp
        moreover from cd have "fs w ?C \<noteq> None" by simp
        ultimately show ?thesis using wff by (intro wf_fs_prefix)
      qed
      with f le show False by (simp add: sp)
    qed
    then have gt: "length ?C < k" by simp
    with k have j: "k - length ?C < length (segs p)" by (simp add: sp)
    from gt have "take k (?C @ segs p) = ?C @ take (k - length ?C) (segs p)" by simp
    with False j show ?thesis
      by (auto simp: sp absolute_def is_absolute_def joinpath_def intro!: exI [of _ "k - length ?C"])
  qed
  then obtain j where j: "j < length (segs p)"
    and e: "take k (segs (absolute (getcwd w) p))
          = segs (absolute (getcwd w) (p\<lparr>segs := take j (segs p)\<rparr>))" by blast
  let ?q = "p\<lparr>segs := take j (segs p)\<rparr>"
  from j have qp: "?q \<in> set (parents p)" by (auto simp: in_parents_iff)
  from pl have "plain (take k (segs (absolute (getcwd w) p)))" by (rule plain_take)
  then have plq: "plain (segs (absolute (getcwd w) ?q))" by (simp only: e)
  from f have "fs w (segs (absolute (getcwd w) ?q)) = Some (File c)" by (simp only: e)
  with wff plq have "is_file w ?q" by (rule file_at_location)
  with nf qp show False by blast
qed

lemma write_new_ok:
  assumes wf: "wf_world w" and pl: "plain (segs (absolute (getcwd w) p))"
    and ne: "\<not> exists w p"
    and nf: "\<forall>q \<in> set (parents p). \<not> is_file w q"
  shows "\<exists>w'. write_file contents p verbose w = Inr (PyNone, w')
              \<and> (\<forall>l. fs w l \<noteq> None \<longrightarrow> fs w' l = fs w l)"
proof -
  let ?sp = "segs (absolute (getcwd w) p)"
  let ?pp = "parent p"
  from wf have wff: "wf_fs (fs w)" by (simp add: wf_world_def)
  from wff pl ne have none: "fs w ?sp = None" by (rule not_exists_None)
  from wf none have sq: "segs p \<noteq> []" by (rule none_nonempty)
  from wff none have nesp: "?sp \<noteq> []" by (auto simp: wf_fs_def)
  from sq have spp: "segs (absolute (getcwd w) ?pp) = butlast ?sp" by (rule segs_absolute_parent)
  have nfl: "\<forall>k<length ?sp. \<forall>c. fs w (take k ?sp) \<noteq> Some (File c)"
    using no_file_above [OF wf pl nf] by blast
  have plp: "plain (segs (absolute (getcwd w) ?pp))"
    using pl by (simp only: spp) (rule plain_butlast)
  have nfp: "\<forall>k\<le>length (segs (absolute (getcwd w) ?pp)). \<forall>c.
               fs w (take k (segs (absolute (getcwd w) ?pp))) \<noteq> Some (File c)"
  proof (intro allI impI)
    fix k c assume "k \<le> length (segs (absolute (getcwd w) ?pp))"
    then have k: "k \<le> length (butlast ?sp)" by (simp only: spp)
    with butlast_shorter [OF nesp] have "k < length ?sp" by (simp del: length_butlast)
    with nfl have "fs w (take k ?sp) \<noteq> Some (File c)" by blast
    moreover from k have "take k (butlast ?sp) = take k ?sp"
      by (cases "k = length (butlast ?sp)") (simp_all add: butlast_conv_take take_butlast)
    ultimately show "fs w (take k (segs (absolute (getcwd w) ?pp))) \<noteq> Some (File c)"
      by (simp add: spp)
  qed
  have mk: "\<exists>w1. (if \<not> exists w ?pp then mkdir ?pp True False w else Inr w) = Inr w1
               \<and> made_dirs w (butlast ?sp) w1"
  proof (cases "exists w ?pp")
    case True
    then obtain l en where r: "resolve w ?pp = Inr l" and en: "fs w l = Some en"
      by (auto simp: exists_def os_stat_def split: sum.splits option.splits)
    from resolve_plain_Inr [OF plp r] have "l = butlast ?sp" by (simp only: spp)
    with en have e2: "fs w (butlast ?sp) = Some en" by simp
    from nfp have "\<forall>c. fs w (take (length (butlast ?sp)) (butlast ?sp)) \<noteq> Some (File c)"
      by (simp only: spp) blast
    with e2 have "fs w (butlast ?sp) = Some Dir" by (cases en) auto
    with wff have "made_dirs w (butlast ?sp) w" by (rule made_dirs_refl)
    with True show ?thesis by simp
  next
    case False
    with wff plp have np: "fs w (segs (absolute (getcwd w) ?pp)) = None" by (intro not_exists_None)
    from wf np have sq2: "segs ?pp \<noteq> []" by (rule none_nonempty)
    then have sgp: "segs (absolute (getcwd w) (parent ?pp)) = butlast (segs (absolute (getcwd w) ?pp))"
      by (rule segs_absolute_parent)
    have plg: "plain (segs (absolute (getcwd w) (parent ?pp)))"
      using plp by (simp only: sgp) (rule plain_butlast)
    have nfg: "\<forall>k\<le>length (segs (absolute (getcwd w) (parent ?pp))). \<forall>c.
               fs w (take k (segs (absolute (getcwd w) (parent ?pp)))) \<noteq> Some (File c)"
    proof (intro allI impI)
      fix k c assume "k \<le> length (segs (absolute (getcwd w) (parent ?pp)))"
      then have k: "k \<le> length (butlast (segs (absolute (getcwd w) ?pp)))" by (simp only: sgp)
      then have "k \<le> length (segs (absolute (getcwd w) ?pp))" by simp
      with nfp have "fs w (take k (segs (absolute (getcwd w) ?pp))) \<noteq> Some (File c)" by blast
      moreover from k have "take k (butlast (segs (absolute (getcwd w) ?pp)))
          = take k (segs (absolute (getcwd w) ?pp))"
        by (cases "k = length (butlast (segs (absolute (getcwd w) ?pp)))")
          (simp_all add: butlast_conv_take take_butlast)
      ultimately show "fs w (take k (segs (absolute (getcwd w) (parent ?pp)))) \<noteq> Some (File c)"
        by (simp add: sgp)
    qed
    from mkdir_parents_ok [OF wf plg nfg]
    have par: "\<exists>w1. mkdir (parent ?pp) True True w = Inr w1
                \<and> made_dirs w (butlast (segs (absolute (getcwd w) ?pp))) w1"
      by (simp only: sgp)
    from mkdir_step [OF wf plp nfp np par, of False]
    have "\<exists>w1. mkdir ?pp True False w = Inr w1 \<and> made_dirs w (butlast ?sp) w1"
      by (simp only: spp)
    with False show ?thesis by simp
  qed
  then obtain w1 where m1: "(if \<not> exists w ?pp then mkdir ?pp True False w else Inr w) = Inr w1"
    and md: "made_dirs w (butlast ?sp) w1" by blast
  from md have cw: "getcwd w1 = getcwd w" and wf1: "wf_fs (fs w1)"
    and d1: "fs w1 (butlast ?sp) = Some Dir"
    and old1: "\<forall>l. fs w l \<noteq> None \<longrightarrow> fs w1 l = fs w l"
    and new1: "\<forall>l. fs w l = None \<longrightarrow> fs w1 l \<noteq> None \<longrightarrow> fs w1 l = Some Dir \<and> prefix l (butlast ?sp)"
    by (simp_all add: made_dirs_def)
  have n1: "fs w1 ?sp = None"
  proof (rule ccontr)
    assume "fs w1 ?sp \<noteq> None"
    with new1 none have "prefix ?sp (butlast ?sp)" by blast
    then have "length ?sp \<le> length (butlast ?sp)" by (rule prefix_length_le)
    with butlast_shorter [OF nesp] show False by (simp del: length_butlast)
  qed
  have "resolve w1 p = Inr (segs (absolute (getcwd w1) p))"
  proof (rule resolve_ok)
    show "wf_fs (fs w1)" by (rule wf1)
    show "plain (segs (absolute (getcwd w1) p))" using pl by (simp add: cw)
    show "segs (absolute (getcwd w1) p) \<noteq> []" using nesp by (simp add: cw)
    show "fs w1 (butlast (segs (absolute (getcwd w1) p))) = Some Dir" using d1 by (simp add: cw)
  qed
  then have r1: "resolve w1 p = Inr ?sp" by (simp add: cw)
  let ?w2 = "w1\<lparr>fs := (fs w1)(?sp \<mapsto> File contents), written := written w1 @ [(p, contents)]\<rparr>"
  from r1 n1 have ow: "open_write contents p w1 = Inr ?w2" by (simp add: open_write_def)
  let ?w' = "if verbose then print (''wrote: '' @ str_of p) ?w2 else ?w2"
  from ne m1 ow have res: "write_file contents p verbose w = Inr (PyNone, ?w')"
    by (simp add: write_file_def)
  have "fs ?w' l = fs w l" if "fs w l \<noteq> None" for l
  proof -
    from that none have "l \<noteq> ?sp" by auto
    moreover from that old1 have "fs w1 l = fs w l" by blast
    ultimately show ?thesis by (simp add: print_fields)
  qed
  with res show ?thesis by blast
qed

subsection \<open>The example filesystem\<close>

lemma example_world_wf: "wf_world example_world"
  by (auto simp: wf_world_def wf_fs_def example_world_def is_absolute_def split: if_splits)

lemma Path_examples3:
  "Path ''/a/b/file.txt'' = \<lparr>root = ''/'', segs = [''a'', ''b'', ''file.txt'']\<rparr>"
  "Path ''/new/deep/path/f.txt'' = \<lparr>root = ''/'', segs = [''new'', ''deep'', ''path'', ''f.txt'']\<rparr>"
  "Path ''/new/deep/path'' = \<lparr>root = ''/'', segs = [''new'', ''deep'', ''path'']\<rparr>"
  "Path ''/new/deep'' = \<lparr>root = ''/'', segs = [''new'', ''deep'']\<rparr>"
  "Path ''/new'' = \<lparr>root = ''/'', segs = [''new'']\<rparr>"
  by (simp_all add: Path_def splitroot_def)


lemma example_new_missing:
  "\<not> exists example_world \<lparr>root = ''/'', segs = [''new'', ''deep'', ''path'', ''f.txt'']\<rparr>"
  by (simp add: exists_def os_stat_def resolve_def example_world_def)

lemma example_new_parents:
  "\<forall>q \<in> set (parents \<lparr>root = ''/'', segs = [''new'', ''deep'', ''path'', ''f.txt'']\<rparr>).
     \<not> is_file example_world q"
  by (simp add: parents_def upt_rec is_file_def os_stat_def resolve_def example_world_def)

lemma example_new_plain:
  "plain (segs (absolute (getcwd example_world)
     \<lparr>root = ''/'', segs = [''new'', ''deep'', ''path'', ''f.txt'']\<rparr>))"
  by (simp add: plain_def)

section \<open>Properties of write-if-changed\<close>

text \<open>
  C4, at an input where it fails. Writing to a destination that does not exist yields
  \<^verbatim>\<open>None\<close>: the third branch of \<^verbatim>\<open>write\<close> has no \<^verbatim>\<open>return\<close>. \<^verbatim>\<open>None\<close> is falsy, as the
  \<^verbatim>\<open>False\<close> of the preserved outcome is, so the truth value of the result does not tell a
  file that was written from one that was preserved.
\<close>

theorem write_new_file_returns_None:
  "\<not> exists example_world (Path ''/new/deep/path/f.txt'')
   \<and> map_sum id fst (write_file ''X'' (Path ''/new/deep/path/f.txt'') False example_world) = Inr PyNone
   \<and> truthy PyNone = truthy (PyBool False)"
proof -
  from write_new_ok [OF example_world_wf example_new_plain example_new_missing example_new_parents,
      of "''X''" False]
  obtain w' where "write_file ''X'' \<lparr>root = ''/'', segs = [''new'', ''deep'', ''path'', ''f.txt'']\<rparr>
      False example_world = Inr (PyNone, w')" by blast
  with example_new_missing show ?thesis by (simp add: Path_examples3)
qed




text \<open>
  The claim as worded holds for no destination below a regular file: \<^verbatim>\<open>/a/b/file.txt\<close> is a
  file, so \<^verbatim>\<open>/a/b/file.txt/sub/f.txt\<close> does not exist, and \<^verbatim>\<open>write\<close> raises the
  \<^verbatim>\<open>NotADirectoryError\<close> of \<^verbatim>\<open>mkdir\<close> instead of creating anything.
\<close>

theorem write_below_file_counterexample:
  "\<not> exists example_world (Path ''/a/b/file.txt/sub/f.txt'')
   \<and> write_file ''X'' (Path ''/a/b/file.txt/sub/f.txt'') False example_world
       = Inl NotADirectoryError"
proof -
  let ?P = "\<lparr>root = ''/'', segs = [''a'', ''b'', ''file.txt'', ''sub'', ''f.txt'']\<rparr>"
  have P: "Path ''/a/b/file.txt/sub/f.txt'' = ?P" by (simp add: Path_def splitroot_def)
  have e: "\<not> exists example_world ?P"
    by (simp add: exists_def os_stat_def resolve_def example_world_def)
  have ep: "\<not> exists example_world (parent ?P)"
    by (simp add: parent_def exists_def os_stat_def resolve_def example_world_def)
  have om: "os_mkdir example_world (parent ?P) = Inl NotADirectoryError"
    by (simp add: parent_def os_mkdir_def resolve_def example_world_def)
  have mk: "mkdir (parent ?P) True False example_world = Inl NotADirectoryError"
    by (subst mkdir.simps) (simp add: om)
  from e ep mk show ?thesis by (simp add: P write_file_def)
qed

text \<open>
  C9, as amended. When the destination does not exist and \<^verbatim>\<open>write\<close> returns (no error of
  the filesystem is raised), the destination is a file holding exactly the given contents,
  every path among its parents is a directory, and one physical write was made. In a
  well-formed world \<^verbatim>\<open>write\<close> does return for every destination of plain names that does
  not exist and has no regular file among its parents, and what existed before is left as
  it was. So \<^verbatim>\<open>write("X", "/new/deep/path/f.txt")\<close> with no \<^verbatim>\<open>/new\<close> creates
  \<^verbatim>\<open>/new/deep/path\<close> and the file.
\<close>

theorem write_creates:
  "(\<not> exists w p \<and> write_file contents p verbose w = Inr (r, w') \<longrightarrow>
      os_stat w' p = Inr (File contents) \<and> (\<forall>q \<in> set (parents p). is_dir w' q) \<and>
      written w' = written w @ [(p, contents)])
   \<and> (wf_world w \<and> plain (segs (absolute (getcwd w) p)) \<and> \<not> exists w p \<and>
       (\<forall>q \<in> set (parents p). \<not> is_file w q) \<longrightarrow>
      (\<exists>w'. write_file contents p verbose w = Inr (PyNone, w') \<and>
            os_stat w' p = Inr (File contents) \<and> (\<forall>q \<in> set (parents p). is_dir w' q) \<and>
            written w' = written w @ [(p, contents)] \<and>
            (\<forall>l. fs w l \<noteq> None \<longrightarrow> fs w' l = fs w l)))"
proof -
  have 1: "os_stat w' p = Inr (File contents) \<and> (\<forall>q \<in> set (parents p). is_dir w' q) \<and>
      written w' = written w @ [(p, contents)]"
    if ne: "\<not> exists w p" and f: "write_file contents p verbose w = Inr (r, w')" for r w'
  proof -
    from write_Inr_cases [OF f] ne
    have s: "os_stat w' p = Inr (File contents)" and wr: "written w' = written w @ [(p, contents)]"
      by auto
    from s have "\<forall>q \<in> set (parents p). is_dir w' q" by (auto intro: stat_parents_dir)
    with s wr show ?thesis by blast
  qed
  have 2: "\<exists>w'. write_file contents p verbose w = Inr (PyNone, w') \<and>
            os_stat w' p = Inr (File contents) \<and> (\<forall>q \<in> set (parents p). is_dir w' q) \<and>
            written w' = written w @ [(p, contents)] \<and>
            (\<forall>l. fs w l \<noteq> None \<longrightarrow> fs w' l = fs w l)"
    if "wf_world w" "plain (segs (absolute (getcwd w) p))" "\<not> exists w p"
      "\<forall>q \<in> set (parents p). \<not> is_file w q"
  proof -
    from write_new_ok [OF that, of contents verbose]
    obtain w' where f: "write_file contents p verbose w = Inr (PyNone, w')"
      and fr: "\<forall>l. fs w l \<noteq> None \<longrightarrow> fs w' l = fs w l" by blast
    from 1 [OF that(3) f] f fr show ?thesis by blast
  qed
  from 1 2 show ?thesis by blast
qed

theorem write_creates_witness:
  "wf_world example_world
   \<and> plain (segs (absolute (getcwd example_world) (Path ''/new/deep/path/f.txt'')))
   \<and> \<not> exists example_world (Path ''/new/deep/path/f.txt'')
   \<and> \<not> exists example_world (Path ''/new'')
   \<and> (\<exists>w'. write_file ''X'' (Path ''/new/deep/path/f.txt'') False example_world = Inr (PyNone, w') \<and>
            os_stat w' (Path ''/new/deep/path/f.txt'') = Inr (File ''X'') \<and>
            is_dir w' (Path ''/new/deep/path'') \<and> is_dir w' (Path ''/new/deep'') \<and>
            is_dir w' (Path ''/new'') \<and>
            written w' = [(Path ''/new/deep/path/f.txt'', ''X'')])"
proof -
  let ?P = "\<lparr>root = ''/'', segs = [''new'', ''deep'', ''path'', ''f.txt'']\<rparr>"
  have nn: "\<not> exists example_world \<lparr>root = ''/'', segs = [''new'']\<rparr>"
    by (simp add: exists_def os_stat_def resolve_def example_world_def)
  have ps: "set (parents ?P) = {\<lparr>root = ''/'', segs = [''new'', ''deep'', ''path'']\<rparr>,
      \<lparr>root = ''/'', segs = [''new'', ''deep'']\<rparr>, \<lparr>root = ''/'', segs = [''new'']\<rparr>,
      \<lparr>root = ''/'', segs = []\<rparr>}"
    by (simp add: parents_def upt_rec)
  have wr: "written example_world = []" by (simp add: example_world_def)
  from write_creates [of example_world ?P "''X''" False]
    example_world_wf example_new_plain example_new_missing example_new_parents
  obtain w' where "write_file ''X'' ?P False example_world = Inr (PyNone, w')"
    "os_stat w' ?P = Inr (File ''X'')" "\<forall>q \<in> set (parents ?P). is_dir w' q"
    "written w' = written example_world @ [(?P, ''X'')]"
    by blast
  with example_world_wf example_new_plain example_new_missing nn show ?thesis
    by (simp only: Path_examples3 ps wr) auto
qed

section \<open>Walking a child directory by its path\<close>

lemma subtree_append:
  "subtree t (l @ m) = (case subtree t l of None \<Rightarrow> None | Some c \<Rightarrow> subtree c m)"
proof (induction t l rule: subtree.induct)
  case (1 n)
  show ?case by simp
next
  case (2 c s ss)
  show ?case by simp
next
  case (3 es s ss)
  then show ?case by (cases "map_of es s") simp_all
qed

lemma subtree_child:
  assumes "subtree t l = Some (DirN es)" "distinct (map fst es)" "(n, c) \<in> set es"
  shows "subtree t (l @ [n]) = Some c"
proof -
  from assms(2,3) have "map_of es n = Some c" by (rule map_of_is_SomeI)
  with assms(1) show ?thesis by (simp add: subtree_append)
qed

text \<open>
  The source walks a child directory by calling \<^verbatim>\<open>walk\<close> on its path. In a tree whose
  directories hold no name twice, that path leads to the child itself, so the call yields
  what the recursion on the child yields.
\<close>

lemma walk_child:
  assumes "namei (fs_of tree) [] (segs (absolute cwd p)) = Inr l"
    and "subtree tree l = Some (DirN es)"
    and "distinct (map fst es)"
    and "(n, DirN es') \<in> set es"
    and "n \<noteq> ''..''"
  shows "walk cwd tree (make_child p n) top_down
           = Inr (walk_node top_down (make_child p n) (DirN es'))"
proof -
  have s: "segs (absolute cwd (make_child p n)) = segs (absolute cwd p) @ [n]"
    by (simp add: absolute_def make_child_def is_absolute_def joinpath_def)
  from assms(2) have d: "fs_of tree l = Some Dir" by (simp add: fs_of_def)
  from assms(1) d assms(5)
  have r: "namei (fs_of tree) [] (segs (absolute cwd (make_child p n))) = Inr (l @ [n])"
    by (simp add: s namei_append)
  from assms(2,3,4) have "subtree tree (l @ [n]) = Some (DirN es')" by (rule subtree_child)
  with r show ?thesis by (simp add: walk_def)
qed

end
